theory Spec2Isabelle
  imports Complex_Main "HOL-Library.Sublist"
begin

section \<open>Values\<close>

text \<open>
  The JavaScript values the reactivity core compares and inspects. Numbers keep the
  distinctions that \<^verbatim>\<open>===\<close> sees: \<open>NaN\<close> differs from itself, the two
  zeros are equal, every other number equals only itself. Objects, arrays and
  functions are references; two references are the same value iff they point to the same
  object. Symbols and bigints do not occur in the code modelled here.
\<close>

datatype jsnum = NaN | PosInf | NegInf | NegZero | Fin real

datatype jsval = Undefined | Null | Boolean bool | Num jsnum | Str string | Obj nat | Func nat

fun num_eq :: "jsnum \<Rightarrow> jsnum \<Rightarrow> bool" where
  "num_eq NaN _ = False"
| "num_eq _ NaN = False"
| "num_eq NegZero (Fin x) = (x = 0)"
| "num_eq (Fin x) NegZero = (x = 0)"
| "num_eq a b = (a = b)"

text \<open>\<^verbatim>\<open>a === b\<close>\<close>

fun strict_eq :: "jsval \<Rightarrow> jsval \<Rightarrow> bool" where
  "strict_eq (Num a) (Num b) = num_eq a b"
| "strict_eq a b = (a = b)"


section \<open>Dep and Watcher\<close>

text \<open>
  A \<^verbatim>\<open>Dep\<close> is identified by its \<^verbatim>\<open>id\<close> (\<^verbatim>\<open>uid++\<close> in the
  constructor), a \<^verbatim>\<open>Watcher\<close> by its \<^verbatim>\<open>id\<close> (\<^verbatim>\<open>++uid\<close>). The two classes
  point at each other, so both live in one store: \<open>subs h d\<close> is the array
  \<^verbatim>\<open>d.subs\<close> (watcher ids), \<open>watchers h w\<close> the fields of watcher \<open>w\<close>, whose
  \<^verbatim>\<open>deps\<close> and \<^verbatim>\<open>newDeps\<close> arrays hold dep ids.
\<close>

record watcher =
  vm :: nat
  deep :: bool
  user :: bool
  lazy :: bool
  sync :: bool
  active :: bool
  dirty :: bool
  deps :: "nat list"
  newDeps :: "nat list"
  depIds :: "nat set"
  newDepIds :: "nat set"
  wvalue :: jsval

record component =
  c_watchers :: "nat list"
  isBeingDestroyed :: bool

datatype error = GetterError | CallbackError

record heap =
  subs :: "nat \<Rightarrow> nat list"
  watchers :: "nat \<Rightarrow> watcher"
  vms :: "nat \<Rightarrow> component"
  target :: "nat option"
  targetStack :: "nat option list"
  callbacks :: "(nat \<times> jsval \<times> jsval) list"
  reported :: "(nat \<times> error) list"

text \<open>
  \<^verbatim>\<open>remove(arr, item)\<close> of \<^verbatim>\<open>util/index\<close>: Modelled from the spec: the helper is
  imported, not defined, in the sources at hand; \<^verbatim>\<open>removeSub\<close> and \<^verbatim>\<open>teardown\<close>
  use it to take one item out of an array, which removes its first occurrence.
\<close>

definition remove :: "'a list \<Rightarrow> 'a \<Rightarrow> 'a list" where
  "remove arr item = remove1 item arr"

definition addSub :: "heap \<Rightarrow> nat \<Rightarrow> nat \<Rightarrow> heap" where
  "addSub h d sub = h\<lparr>subs := (subs h)(d := subs h d @ [sub])\<rparr>"

definition removeSub :: "heap \<Rightarrow> nat \<Rightarrow> nat \<Rightarrow> heap" where
  "removeSub h d sub = h\<lparr>subs := (subs h)(d := remove (subs h d) sub)\<rparr>"

definition pushTarget :: "heap \<Rightarrow> nat option \<Rightarrow> heap" where
  "pushTarget h t = h\<lparr>targetStack := targetStack h @ [t], target := t\<rparr>"

text \<open>Reading past the end of the emptied stack gives \<^verbatim>\<open>undefined\<close>: no target.\<close>

definition popTarget :: "heap \<Rightarrow> heap" where
  "popTarget h =
     (let st = butlast (targetStack h)
      in h\<lparr>targetStack := st, target := (if st = [] then None else last st)\<rparr>)"

definition addDep :: "heap \<Rightarrow> nat \<Rightarrow> nat \<Rightarrow> heap" where
  "addDep h w d =
     (let W = watchers h w in
      if d \<notin> newDepIds W then
        let h1 = h\<lparr>watchers := (watchers h)
                   (w := W\<lparr>newDepIds := insert d (newDepIds W), newDeps := newDeps W @ [d]\<rparr>)\<rparr>
        in if d \<notin> depIds W then addSub h1 d w else h1
      else h)"

text \<open>\<^verbatim>\<open>Dep.depend\<close>\<close>

definition depend :: "nat \<Rightarrow> heap \<Rightarrow> heap" where
  "depend d h = (case target h of Some w \<Rightarrow> addDep h w d | None \<Rightarrow> h)"

text \<open>
  \<^verbatim>\<open>cleanupDeps\<close>: the \<^verbatim>\<open>while (i--)\<close> loop visits \<^verbatim>\<open>deps\<close> from its last
  element to its first, which is the order in which \<open>foldr\<close> applies its function.
\<close>

definition cleanupDeps :: "heap \<Rightarrow> nat \<Rightarrow> heap" where
  "cleanupDeps h w =
     (let W = watchers h w;
          h1 = foldr (\<lambda>d h'. if d \<notin> newDepIds W then removeSub h' d w else h') (deps W) h
      in h1\<lparr>watchers := (watchers h1)
              (w := W\<lparr>depIds := newDepIds W, newDepIds := {},
                      deps := newDeps W, newDeps := []\<rparr>)\<rparr>)"

text \<open>
  What one run of a watcher's getter does, as seen from the core: the deps whose
  \<^verbatim>\<open>depend()\<close> it reaches while the watcher is the target, the value it returns
  (\<open>None\<close> when it throws), the deps that \<^verbatim>\<open>traverse(value)\<close> reaches for a deep
  watcher, and whether the callback throws.
\<close>

record evaluation =
  touched :: "nat list"
  outcome :: "jsval option"
  deep_touched :: "nat list"
  cb_throws :: bool

text \<open>
  \<^verbatim>\<open>Watcher.get\<close>. The \<^verbatim>\<open>finally\<close> block runs on every path; a getter that
  throws leaves \<^verbatim>\<open>value\<close> undefined, which \<^verbatim>\<open>traverse\<close> ignores.
\<close>

definition get :: "heap \<Rightarrow> nat \<Rightarrow> evaluation \<Rightarrow> heap \<times> (error + jsval)" where
  "get h w ev =
     (let h1 = pushTarget h (Some w);
          h2 = fold depend (touched ev) h1;
          h3 = (case outcome ev of
                  None \<Rightarrow> if user (watchers h2 w)
                          then h2\<lparr>reported := reported h2 @ [(w, GetterError)]\<rparr> else h2
                | Some v \<Rightarrow> if deep (watchers h2 w) then fold depend (deep_touched ev) h2 else h2);
          h4 = popTarget h3;
          h5 = cleanupDeps h4 w
      in case outcome ev of
           None \<Rightarrow> if user (watchers h w) then (h5, Inr Undefined) else (h5, Inl GetterError)
         | Some v \<Rightarrow> (h5, Inr v))"


definition evaluate :: "heap \<Rightarrow> nat \<Rightarrow> evaluation \<Rightarrow> heap \<times> (error + unit)" where
  "evaluate h w ev =
     (case get h w ev of
        (h1, Inl e) \<Rightarrow> (h1, Inl e)
      | (h1, Inr v) \<Rightarrow>
          (h1\<lparr>watchers := (watchers h1)(w := (watchers h1 w)\<lparr>wvalue := v, dirty := False\<rparr>)\<rparr>,
           Inr ()))"

text \<open>\<^verbatim>\<open>Watcher.depend\<close>: \<^verbatim>\<open>while (i--) this.deps[i].depend()\<close>\<close>

definition wdepend :: "heap \<Rightarrow> nat \<Rightarrow> heap" where
  "wdepend h w = foldr depend (deps (watchers h w)) h"




text \<open>
  The build and configuration switches the core reads:
  \<^verbatim>\<open>process.env.NODE_ENV !== 'production'\<close> and \<^verbatim>\<open>config.async\<close>.
\<close>

record config =
  dev :: bool
  async :: bool



section \<open>Scheduler\<close>

definition MAX_UPDATE_COUNT :: nat where
  "MAX_UPDATE_COUNT = 100"

text \<open>
  The module state of the scheduler. Watchers in \<^verbatim>\<open>queue\<close> are named by their id.
  \<open>has s i\<close> holds iff \<^verbatim>\<open>has[i] != null\<close> (the entry is \<^verbatim>\<open>true\<close>, not
  \<^verbatim>\<open>null\<close> or absent); \<open>circular s i\<close> is \<^verbatim>\<open>circular[i] || 0\<close>. Two traces
  record what a flush does to the outside: \<open>runs\<close>, the watchers whose
  \<^verbatim>\<open>run()\<close> was called, in call order, and \<open>warned\<close>, the watchers named by an
  infinite-loop warning.
\<close>

record sched =
  queue :: "nat list"
  has :: "nat \<Rightarrow> bool"
  circular :: "nat \<Rightarrow> nat"
  waiting :: bool
  flushing :: bool
  index :: nat
  runs :: "nat list"
  warned :: "nat list"

definition resetSchedulerState :: "config \<Rightarrow> sched \<Rightarrow> sched" where
  "resetSchedulerState cfg s =
     s\<lparr>index := 0, queue := [], has := (\<lambda>_. False),
       circular := (if dev cfg then (\<lambda>_. 0) else circular s),
       waiting := False, flushing := False\<rparr>"

text \<open>
  The backward scan of \<^verbatim>\<open>queueWatcher\<close>:
  \<^verbatim>\<open>while (i > index && queue[i].id > watcher.id) i--\<close>, started at
  \<^verbatim>\<open>queue.length - 1\<close>, which is \<open>-1\<close> for an empty queue.
\<close>

function scan_back :: "nat list \<Rightarrow> nat \<Rightarrow> nat \<Rightarrow> int \<Rightarrow> int" where
  "scan_back q idx wid i =
     (if i > int idx \<and> q ! nat i > wid then scan_back q idx wid (i - 1) else i)"
  by pat_completeness auto
termination
  by (relation "measure (\<lambda>(q, idx, wid, i). nat i)") auto

declare scan_back.simps [simp del]

text \<open>
  What \<^verbatim>\<open>queueWatcher\<close> asks of the host when it finds no flush pending: nothing,
  \<^verbatim>\<open>flushSchedulerQueue()\<close> at once (development build, synchronous configuration),
  or \<^verbatim>\<open>nextTick(flushSchedulerQueue)\<close>. Either call is the last thing
  \<^verbatim>\<open>queueWatcher\<close> does, so it is returned for the caller to carry out.
\<close>

datatype flush_request = NoFlush | FlushNow | FlushNextTick

definition queueWatcher :: "config \<Rightarrow> nat \<Rightarrow> sched \<Rightarrow> sched \<times> flush_request" where
  "queueWatcher cfg w s =
     (if \<not> has s w then
        let s1 = s\<lparr>has := (has s)(w := True)\<rparr>;
            s2 = (if \<not> flushing s1 then s1\<lparr>queue := queue s1 @ [w]\<rparr>
                  else
                    let i = scan_back (queue s1) (index s1) w (int (length (queue s1)) - 1)
                    in s1\<lparr>queue := take (nat (i + 1)) (queue s1) @ [w] @
                                   drop (nat (i + 1)) (queue s1)\<rparr>)
        in if \<not> waiting s2 then
             (s2\<lparr>waiting := True\<rparr>,
              if dev cfg \<and> \<not> async cfg then FlushNow else FlushNextTick)
           else (s2, NoFlush)
      else (s, NoFlush))"

text \<open>
  A hook or a watcher's \<^verbatim>\<open>run()\<close> executes user code. The scheduler sees of it
  only the \<^verbatim>\<open>queueWatcher\<close> calls it causes, so user code is a function from its
  own state and the watcher to its new state and the watchers it enqueues, in order.
  While a flush drains, \<^verbatim>\<open>waiting\<close> is set, so these calls request no flush.
\<close>

type_synonym 'u behaviour = "'u \<Rightarrow> nat \<Rightarrow> 'u \<times> nat list"

definition enqueue_all :: "config \<Rightarrow> nat list \<Rightarrow> sched \<Rightarrow> sched" where
  "enqueue_all cfg ws s = fold (\<lambda>w s'. fst (queueWatcher cfg w s')) ws s"

text \<open>
  One pass through the body of the \<^verbatim>\<open>for\<close> loop of
  \<^verbatim>\<open>flushSchedulerQueue\<close>, at \<^verbatim>\<open>index < queue.length\<close>. The flag returned
  is \<open>True\<close> when the body ends in \<^verbatim>\<open>break\<close>.
\<close>

definition flush_body ::
  "config \<Rightarrow> 'u behaviour \<Rightarrow> 'u behaviour \<Rightarrow> 'u \<times> sched \<Rightarrow> ('u \<times> sched) \<times> bool" where
  "flush_body cfg beforew runw st =
     (let (u, s) = st;
          w = queue s ! index s;
          (u1, es1) = beforew u w;
          s1 = enqueue_all cfg es1 s;
          s2 = s1\<lparr>has := (has s1)(w := False)\<rparr>;
          (u2, es2) = runw u1 w;
          s3 = (enqueue_all cfg es2 s2)\<lparr>runs := runs s2 @ [w]\<rparr>
      in if dev cfg \<and> has s3 w then
           let s4 = s3\<lparr>circular := (circular s3)(w := circular s3 w + 1)\<rparr>
           in if circular s4 w > MAX_UPDATE_COUNT
              then ((u2, s4\<lparr>warned := warned s4 @ [w]\<rparr>), True)
              else ((u2, s4), False)
         else ((u2, s3), False))"

text \<open>
  The \<^verbatim>\<open>for\<close> loop itself, which re-reads \<^verbatim>\<open>queue.length\<close> at every test.
  Nothing bounds the number of passes (a production build has no loop guard), so the
  loop is run for at most \<open>n\<close> passes: \<open>Running\<close> says that it has not left the loop
  by then, \<open>Finished\<close> that it left by its test, \<open>Aborted\<close> that it left by
  \<^verbatim>\<open>break\<close>.
\<close>

datatype status = Running | Finished | Aborted

fun drain ::
  "config \<Rightarrow> 'u behaviour \<Rightarrow> 'u behaviour \<Rightarrow> nat \<Rightarrow> 'u \<times> sched \<Rightarrow> status \<times> 'u \<times> sched" where
  "drain cfg beforew runw 0 (u, s) =
     (if index s < length (queue s) then (Running, u, s) else (Finished, u, s))"
| "drain cfg beforew runw (Suc n) (u, s) =
     (if index s < length (queue s) then
        (case flush_body cfg beforew runw (u, s) of
           (st', True) \<Rightarrow> (Aborted, st')
         | ((u', s'), False) \<Rightarrow> drain cfg beforew runw n (u', s'\<lparr>index := index s' + 1\<rparr>))
      else (Finished, u, s))"

text \<open>
  \<^verbatim>\<open>flushSchedulerQueue\<close> up to the loop: set \<^verbatim>\<open>flushing\<close>, sort the queue by
  ascending id, start at \<^verbatim>\<open>index = 0\<close>.
\<close>

definition flush_start :: "sched \<Rightarrow> sched" where
  "flush_start s = s\<lparr>flushing := True, queue := sort (queue s), index := 0\<rparr>"

text \<open>
  \<^verbatim>\<open>flushSchedulerQueue\<close>: the loop, then the copy of the queue kept for the
  \<^verbatim>\<open>updated\<close> hooks, then the reset. The hooks themselves belong to the host. The
  result is \<open>None\<close> when \<open>n\<close> passes do not finish the loop.
\<close>

definition flushSchedulerQueue ::
  "config \<Rightarrow> 'u behaviour \<Rightarrow> 'u behaviour \<Rightarrow> nat \<Rightarrow> 'u \<times> sched \<Rightarrow> ('u \<times> sched \<times> nat list) option" where
  "flushSchedulerQueue cfg beforew runw n st =
     (case drain cfg beforew runw n (fst st, flush_start (snd st)) of
        (Running, _) \<Rightarrow> None
      | (_, u', s') \<Rightarrow> Some (u', resetSchedulerState cfg s', queue s'))"

section \<open>Observed objects\<close>

text \<open>
  Objects live in a store and are named by their address, the index in \<open>objs\<close>.
  An object is a plain record, an array, a virtual-DOM node or some other object
  (\<^verbatim>\<open>Date\<close>, \<^verbatim>\<open>Map\<close>, ...). Functions are opaque: \<open>UserFn\<close> is a function
  the application wrote, \<open>ReactiveGetterFn d\<close> and \<open>ReactiveSetterFn d\<close> are the
  accessors that an earlier \<^verbatim>\<open>defineReactive\<close> call, the one that created dep \<open>d\<close>,
  had installed on a property. What a getter function returns when called is given by
  \<open>getter_value\<close>; calls of setter functions are recorded in \<open>setter_calls\<close>.
\<close>

datatype okind = PlainObject | ArrayObject | VNodeObject | OtherObject

datatype fn = UserFn nat | ReactiveGetterFn nat | ReactiveSetterFn nat

text \<open>
  The variables a \<^verbatim>\<open>defineReactive\<close> call closes over: \<^verbatim>\<open>dep\<close>, \<^verbatim>\<open>val\<close>,
  \<^verbatim>\<open>getter\<close>, \<^verbatim>\<open>setter\<close>, \<^verbatim>\<open>customSetter\<close> (whether one was given),
  \<^verbatim>\<open>shallow\<close> and \<^verbatim>\<open>childOb\<close> (an Observer, named by its index in
  \<open>observers\<close>, or none).
\<close>

record cell =
  c_dep :: nat
  c_val :: jsval
  c_getter :: "fn option"
  c_setter :: "fn option"
  c_custom :: bool
  c_shallow :: bool
  c_childOb :: "nat option"

text \<open>
  A property descriptor: a data property (value, writable, enumerable, configurable), an
  accessor property (get, set, enumerable, configurable), or the enumerable and
  configurable accessor pair of \<^verbatim>\<open>defineReactive\<close> with its closure.
\<close>

datatype descriptor =
    Data jsval bool bool bool
  | Accessor "fn option" "fn option" bool bool
  | Reactive cell

text \<open>
  \<open>ob\<close> is the hidden own property \<^verbatim>\<open>__ob__\<close> when it holds an Observer;
  \<open>patched\<close> says that the seven array methods of the object are the intercepting
  ones (\<^verbatim>\<open>protoAugment\<close> or \<^verbatim>\<open>copyAugment\<close>); \<open>props\<close> are the other own
  properties in creation order; \<open>elems\<close> are the elements of an array, an empty slot
  reading as \<open>Undefined\<close>.
\<close>

record obj =
  kind :: okind
  extensible :: bool
  isVue :: bool
  ob :: "nat option"
  patched :: bool
  props :: "(string \<times> descriptor) list"
  elems :: "jsval list"

record observer =
  o_value :: nat
  o_dep :: nat
  vmCount :: nat

datatype jserror = TypeError | RangeError | Unmodelled

text \<open>
  The state of the observer module and of the objects it works on, with traces of what
  it does to the outside: \<open>notified\<close> lists the deps on which \<^verbatim>\<open>notify()\<close> was
  called, in call order; \<open>custom_calls\<close> counts calls of a \<^verbatim>\<open>customSetter\<close>;
  \<open>warnings\<close> counts calls of \<^verbatim>\<open>warn\<close>.
\<close>

record world =
  objs :: "obj list"
  observers :: "observer list"
  dep_uid :: nat
  shouldObserve :: bool
  serverRendering :: bool
  getter_value :: "fn \<Rightarrow> jsval"
  setter_calls :: "(fn \<times> jsval) list"
  notified :: "nat list"
  custom_calls :: nat
  warnings :: nat

definition toggleObserving :: "bool \<Rightarrow> world \<Rightarrow> world" where
  "toggleObserving v W = W\<lparr>shouldObserve := v\<rparr>"

definition lookup :: "(string \<times> descriptor) list \<Rightarrow> string \<Rightarrow> descriptor option" where
  "lookup ps k = map_of ps k"

text \<open>Define or redefine an own property: in place when the key exists, last otherwise.\<close>

fun put :: "(string \<times> descriptor) list \<Rightarrow> string \<Rightarrow> descriptor \<Rightarrow> (string \<times> descriptor) list" where
  "put [] k d = [(k, d)]"
| "put ((k', d') # ps) k d = (if k' = k then (k, d) # ps else (k', d') # put ps k d)"

definition set_obj :: "world \<Rightarrow> nat \<Rightarrow> obj \<Rightarrow> world" where
  "set_obj W a x = W\<lparr>objs := (objs W)[a := x]\<rparr>"

text \<open>\<^verbatim>\<open>Object.keys(obj)\<close>: the enumerable own property names, in order.\<close>

fun enumerable :: "descriptor \<Rightarrow> bool" where
  "enumerable (Data _ _ e _) = e"
| "enumerable (Accessor _ _ e _) = e"
| "enumerable (Reactive _) = True"

fun configurable :: "descriptor \<Rightarrow> bool" where
  "configurable (Data _ _ _ c) = c"
| "configurable (Accessor _ _ _ c) = c"
| "configurable (Reactive _) = True"

definition object_keys :: "obj \<Rightarrow> string list" where
  "object_keys x = map fst (filter (\<lambda>(k, d). enumerable d) (props x))"

text \<open>\<^verbatim>\<open>property && property.get\<close>, \<^verbatim>\<open>property && property.set\<close>\<close>

fun desc_getter :: "descriptor option \<Rightarrow> fn option" where
  "desc_getter (Some (Accessor g _ _ _)) = g"
| "desc_getter (Some (Reactive c)) = Some (ReactiveGetterFn (c_dep c))"
| "desc_getter _ = None"

fun desc_setter :: "descriptor option \<Rightarrow> fn option" where
  "desc_setter (Some (Accessor _ s _ _)) = s"
| "desc_setter (Some (Reactive c)) = Some (ReactiveSetterFn (c_dep c))"
| "desc_setter _ = None"

text \<open>
  The value that \<^verbatim>\<open>obj[key]\<close> gives for an own property. A reactive property answers
  with what its own getter computes; the dependencies that such a read registers are
  the business of \<open>reactiveGetter\<close> below.
\<close>

fun read_desc :: "world \<Rightarrow> descriptor option \<Rightarrow> jsval" where
  "read_desc W None = Undefined"
| "read_desc W (Some (Data v _ _ _)) = v"
| "read_desc W (Some (Accessor g _ _ _)) =
     (case g of None \<Rightarrow> Undefined | Some f \<Rightarrow> getter_value W f)"
| "read_desc W (Some (Reactive c)) =
     (case c_getter c of None \<Rightarrow> c_val c | Some f \<Rightarrow> getter_value W f)"

text \<open>
  The test of the second branch of \<^verbatim>\<open>observe\<close>:
  \<^verbatim>\<open>shouldObserve && !isServerRendering() && (Array.isArray(value) || isPlainObject(value))
  && Object.isExtensible(value) && !value._isVue\<close>.
\<close>

definition observable :: "world \<Rightarrow> obj \<Rightarrow> bool" where
  "observable W x \<longleftrightarrow>
     shouldObserve W \<and> \<not> serverRendering W \<and>
     (kind x = ArrayObject \<or> kind x = PlainObject) \<and> extensible x \<and> \<not> isVue x"

text \<open>
  What \<^verbatim>\<open>observe(value)\<close> returns: nothing for a value that is no object or is a
  VNode, the Observer the value carries, or the Observer that the call creates, which
  is the next one in \<open>observers\<close>.
\<close>

definition observe_result :: "world \<Rightarrow> jsval \<Rightarrow> nat option" where
  "observe_result W v =
     (case v of
        Obj a \<Rightarrow>
          if a < length (objs W) \<and> kind (objs W ! a) \<noteq> VNodeObject then
            (case ob (objs W ! a) of
               Some b \<Rightarrow> Some b
             | None \<Rightarrow> if observable W (objs W ! a) then Some (length (observers W)) else None)
          else None
      | _ \<Rightarrow> None)"

text \<open>
  The calls still to be made while a value is being observed. \<^verbatim>\<open>observe\<close>, the
  \<^verbatim>\<open>Observer\<close> constructor, \<^verbatim>\<open>walk\<close>, \<^verbatim>\<open>observeArray\<close> and
  \<^verbatim>\<open>defineReactive\<close> call each other; the pending calls are kept on a stack in the
  order in which the call stack of the source makes them: \<open>TObserve v\<close> is
  \<^verbatim>\<open>observe(v)\<close>, \<open>TDefine a k\<close> is \<^verbatim>\<open>defineReactive(obj, k)\<close> as \<^verbatim>\<open>walk\<close>
  calls it, \<open>TInstall a k c\<close> is the \<^verbatim>\<open>Object.defineProperty\<close> that ends a
  \<^verbatim>\<open>defineReactive\<close> call, after the \<^verbatim>\<open>observe(val)\<close> in its middle.
\<close>

datatype task = TObserve jsval | TDefine nat string | TInstall nat string cell

text \<open>
  The \<^verbatim>\<open>Observer\<close> constructor up to its loop: a new \<^verbatim>\<open>Dep\<close>, \<^verbatim>\<open>vmCount = 0\<close>,
  \<^verbatim>\<open>def(value, '__ob__', this)\<close>, and for an array the patched methods. The loop is
  \<^verbatim>\<open>observeArray(value)\<close> for an array and \<^verbatim>\<open>walk(value)\<close> otherwise.
\<close>

definition new_observer :: "world \<Rightarrow> nat \<Rightarrow> world" where
  "new_observer W a =
     (let x = objs W ! a;
          b = \<lparr>o_value = a, o_dep = dep_uid W, vmCount = 0\<rparr>
      in W\<lparr>objs := (objs W)[a := x\<lparr>ob := Some (length (observers W)),
                                    patched := (patched x \<or> kind x = ArrayObject)\<rparr>],
            observers := observers W @ [b],
            dep_uid := dep_uid W + 1\<rparr>)"

definition observer_loop :: "world \<Rightarrow> nat \<Rightarrow> task list" where
  "observer_loop W a =
     (let x = objs W ! a
      in if kind x = ArrayObject then map TObserve (elems x)
         else map (TDefine a) (object_keys x))"

text \<open>\<^verbatim>\<open>observe(value)\<close> up to the calls it leaves pending.\<close>

definition observe_head :: "world \<Rightarrow> jsval \<Rightarrow> world \<times> task list" where
  "observe_head W v =
     (case v of
        Obj a \<Rightarrow>
          if a < length (objs W) \<and> kind (objs W ! a) \<noteq> VNodeObject \<and>
             ob (objs W ! a) = None \<and> observable W (objs W ! a)
          then (new_observer W a, observer_loop W a)
          else (W, [])
      | _ \<Rightarrow> (W, []))"

text \<open>
  \<^verbatim>\<open>defineReactive(obj, key, val, customSetter, shallow)\<close> up to
  \<^verbatim>\<open>observe(val)\<close>; \<open>valopt\<close> is \<open>None\<close> for a call with two arguments. The result
  is the closure to install and the value to observe first, or nothing when the
  existing property is not configurable.
\<close>

definition define_head ::
  "world \<Rightarrow> nat \<Rightarrow> string \<Rightarrow> jsval option \<Rightarrow> bool \<Rightarrow> bool \<Rightarrow> world \<times> (cell \<times> jsval option) option" where
  "define_head W a key valopt custom shallow =
     (let W1 = W\<lparr>dep_uid := dep_uid W + 1\<rparr>;
          property = lookup (props (objs W ! a)) key
      in if property \<noteq> None \<and> \<not> configurable (the property) then (W1, None)
         else
           let getter = desc_getter property;
               setter = desc_setter property;
               val = (case valopt of
                        Some v \<Rightarrow> v
                      | None \<Rightarrow> if getter = None \<or> setter \<noteq> None
                                then read_desc W1 property else Undefined);
               c = \<lparr>c_dep = dep_uid W, c_val = val, c_getter = getter, c_setter = setter,
                    c_custom = custom, c_shallow = shallow,
                    c_childOb = (if shallow then None else observe_result W1 val)\<rparr>
           in (W1, Some (c, if shallow then None else Some val)))"

definition define_tasks :: "nat \<Rightarrow> string \<Rightarrow> (cell \<times> jsval option) option \<Rightarrow> task list" where
  "define_tasks a key plan =
     (case plan of
        None \<Rightarrow> []
      | Some (c, None) \<Rightarrow> [TInstall a key c]
      | Some (c, Some v) \<Rightarrow> [TObserve v, TInstall a key c])"

definition install :: "world \<Rightarrow> nat \<Rightarrow> string \<Rightarrow> cell \<Rightarrow> world" where
  "install W a key c =
     (let x = objs W ! a in set_obj W a (x\<lparr>props := put (props x) key (Reactive c)\<rparr>))"

text \<open>
  Termination of the pending calls: a call either gives an object its Observer, and
  the objects without one become fewer, or it leaves that number alone and the stack
  becomes lighter.
\<close>

definition unobserved :: "world \<Rightarrow> nat" where
  "unobserved W = length (filter (\<lambda>x. ob x = None) (objs W))"

fun weight :: "task \<Rightarrow> nat" where
  "weight (TObserve _) = 1"
| "weight (TDefine _ _) = 3"
| "weight (TInstall _ _ _) = 1"

function run_tasks :: "task list \<Rightarrow> world \<Rightarrow> world" where
  "run_tasks [] W = W"
| "run_tasks (TObserve v # ts) W =
     run_tasks (snd (observe_head W v) @ ts) (fst (observe_head W v))"
| "run_tasks (TDefine a k # ts) W =
     run_tasks (define_tasks a k (snd (define_head W a k None False False)) @ ts)
       (fst (define_head W a k None False False))"
| "run_tasks (TInstall a k c # ts) W = run_tasks ts (install W a k c)"
  by pat_completeness auto
termination
proof -
  have upd: "length (filter P (xs[a := x])) + (if P (xs ! a) then 1 else 0) =
             length (filter P xs) + (if P x then 1 else 0)"
    if "a < length xs" for P and xs :: "obj list" and a x
    using that
  proof (induction xs arbitrary: a)
    case Nil
    then show ?case by simp
  next
    case (Cons y ys)
    then show ?case by (cases a) auto
  qed
  have unobserved_update:
    "unobserved (W\<lparr>objs := (objs W)[a := x]\<rparr>) + (if ob (objs W ! a) = None then 1 else 0) =
     unobserved W + (if ob x = None then 1 else 0)"
    if "a < length (objs W)" for W a x
    using upd [OF that, of "\<lambda>x. ob x = None" x] by (simp add: unobserved_def)
  have observe_head_measure: "unobserved W1 < unobserved W \<or> W1 = W \<and> p = []"
    if h: "observe_head W v = (W1, p)" for W v W1 p
  proof (cases "\<exists>a. v = Obj a \<and> a < length (objs W) \<and> kind (objs W ! a) \<noteq> VNodeObject \<and>
                   ob (objs W ! a) = None \<and> observable W (objs W ! a)")
    case True
    then obtain a where a: "v = Obj a" "a < length (objs W)" "kind (objs W ! a) \<noteq> VNodeObject"
      "ob (objs W ! a) = None" "observable W (objs W ! a)" by blast
    let ?x = "(objs W ! a)\<lparr>ob := Some (length (observers W)),
                patched := (patched (objs W ! a) \<or> kind (objs W ! a) = ArrayObject)\<rparr>"
    have "W1 = new_observer W a" using h a by (simp add: observe_head_def)
    then have "unobserved W1 = unobserved (W\<lparr>objs := (objs W)[a := ?x]\<rparr>)"
      by (simp add: new_observer_def Let_def unobserved_def)
    then show ?thesis using unobserved_update [OF a(2), of ?x] a(4) by simp
  next
    case False
    then show ?thesis using h by (auto simp: observe_head_def split: jsval.splits if_splits)
  qed
  have define_head_measure: "unobserved (fst (define_head W a k vo cu sh)) = unobserved W"
    for W a k vo cu sh
    by (simp add: define_head_def Let_def unobserved_def)
  have install_measure: "unobserved (install W a k c) = unobserved W" for W a k c
  proof (cases "a < length (objs W)")
    case True
    show ?thesis
      using unobserved_update [OF True, of "(objs W ! a)\<lparr>props := put (props (objs W ! a)) k (Reactive c)\<rparr>"]
      by (simp add: install_def set_obj_def Let_def)
  next
    case False
    then show ?thesis
      by (simp add: install_def set_obj_def Let_def unobserved_def list_update_beyond)
  qed
  show ?thesis
  proof (relation "measures [\<lambda>(ts, W). unobserved W, \<lambda>(ts, W). sum_list (map weight ts)]")
    show "wf (measures [\<lambda>(ts, W). unobserved W, \<lambda>(ts, W). sum_list (map weight ts)])"
      by simp
  next
    fix v ts W
    obtain W1 p where h: "observe_head W v = (W1, p)" by force
    show "((snd (observe_head W v) @ ts, fst (observe_head W v)), TObserve v # ts, W)
          \<in> measures [\<lambda>(ts, W). unobserved W, \<lambda>(ts, W). sum_list (map weight ts)]"
      using observe_head_measure [OF h] h by auto
  next
    fix a k ts W
    have "sum_list (map weight (define_tasks a k plan)) < 3" for plan
      by (auto simp: define_tasks_def split: option.splits prod.splits)
    then show "((define_tasks a k (snd (define_head W a k None False False)) @ ts,
           fst (define_head W a k None False False)), TDefine a k # ts, W)
          \<in> measures [\<lambda>(ts, W). unobserved W, \<lambda>(ts, W). sum_list (map weight ts)]"
      using define_head_measure [of W a k None False False]
      by (simp add: add.commute less_Suc_eq_le trans_less_add2)
  next
    fix a k c ts W
    show "((ts, install W a k c), TInstall a k c # ts, W)
          \<in> measures [\<lambda>(ts, W). unobserved W, \<lambda>(ts, W). sum_list (map weight ts)]"
      using install_measure [of W a k c] by simp
  qed
qed

text \<open>
  \<^verbatim>\<open>observe(value, asRootData)\<close>. The second branch is \<^verbatim>\<open>new Observer(value)\<close>:
  the constructor, then the calls its loop makes.
\<close>

definition observe :: "world \<Rightarrow> jsval \<Rightarrow> bool \<Rightarrow> world \<times> nat option" where
  "observe W v asRootData =
     (case v of
        Obj a \<Rightarrow>
          if \<not> (a < length (objs W)) \<or> kind (objs W ! a) = VNodeObject then (W, None)
          else
            let (W1, b) =
                  (case ob (objs W ! a) of
                     Some b \<Rightarrow> (W, Some b)
                   | None \<Rightarrow>
                       if observable W (objs W ! a)
                       then (run_tasks (observer_loop W a) (new_observer W a),
                             Some (length (observers W)))
                       else (W, None))
            in (case b of
                  Some i \<Rightarrow>
                    if asRootData
                    then (W1\<lparr>observers := (observers W1)
                               [i := (observers W1 ! i)\<lparr>vmCount := vmCount (observers W1 ! i) + 1\<rparr>]\<rparr>,
                          b)
                    else (W1, b)
                | None \<Rightarrow> (W1, b))
      | _ \<Rightarrow> (W, None))"

text \<open>\<^verbatim>\<open>Observer.observeArray(items)\<close>\<close>

definition observeArray :: "world \<Rightarrow> jsval list \<Rightarrow> world" where
  "observeArray W items = run_tasks (map TObserve items) W"


section \<open>Reactive property accessors\<close>


definition isArray :: "world \<Rightarrow> jsval \<Rightarrow> bool" where
  "isArray W v = (case v of Obj a \<Rightarrow> kind (objs W ! a) = ArrayObject | _ \<Rightarrow> False)"




text \<open>
  \<^verbatim>\<open>reactiveSetter\<close>: the new state of the module and of the closure.
  \<^verbatim>\<open>newVal !== newVal && value !== value\<close> holds when both are \<open>NaN\<close>.
\<close>

definition reactiveSetter :: "config \<Rightarrow> world \<Rightarrow> cell \<Rightarrow> jsval \<Rightarrow> world \<times> cell" where
  "reactiveSetter cfg W c newVal =
     (let v = (case c_getter c of Some f \<Rightarrow> getter_value W f | None \<Rightarrow> c_val c)
      in if strict_eq newVal v \<or> (\<not> strict_eq newVal newVal \<and> \<not> strict_eq v v) then (W, c)
         else
           let W1 = (if dev cfg \<and> c_custom c then W\<lparr>custom_calls := custom_calls W + 1\<rparr> else W)
           in if c_getter c \<noteq> None \<and> c_setter c = None then (W1, c)
              else
                let (W2, c2) =
                      (case c_setter c of
                         Some f \<Rightarrow> (W1\<lparr>setter_calls := setter_calls W1 @ [(f, newVal)]\<rparr>, c)
                       | None \<Rightarrow> (W1, c\<lparr>c_val := newVal\<rparr>));
                    (W3, b) = (if c_shallow c then (W2, None) else observe W2 newVal False)
                in (W3\<lparr>notified := notified W3 @ [c_dep c]\<rparr>, c2\<lparr>c_childOb := b\<rparr>))"

section \<open>Property keys, reads and writes\<close>

text \<open>
  A key is a property name or a number. \<^verbatim>\<open>isValidArrayIndex\<close> of \<^verbatim>\<open>util\<close>:
  Modelled from the spec: the helper is imported, not defined, in the sources at hand;
  a non-negative whole number is a valid index, a property name is not (names that spell
  a number are left out).
\<close>

datatype pkey = PName string | PIndex nat

fun isValidArrayIndex :: "pkey \<Rightarrow> bool" where
  "isValidArrayIndex (PIndex _) = True"
| "isValidArrayIndex (PName _) = False"

fun digits :: "nat \<Rightarrow> string" where
  "digits n = (if n < 10 then [char_of (48 + n)] else digits (n div 10) @ [char_of (48 + n mod 10)])"

declare digits.simps [simp del]

fun key_name :: "pkey \<Rightarrow> string" where
  "key_name (PName s) = s"
| "key_name (PIndex n) = digits n"


text \<open>\<^verbatim>\<open>hasOwn(obj, key)\<close> for an object of the store\<close>

definition hasOwn :: "obj \<Rightarrow> string \<Rightarrow> bool" where
  "hasOwn x k \<longleftrightarrow> lookup (props x) k \<noteq> None \<or> (k = ''__ob__'' \<and> ob x \<noteq> None)"



section \<open>Array methods\<close>

text \<open>
  The seven methods of \<^verbatim>\<open>methodsToPatch\<close>. \<^verbatim>\<open>arrayProto[method]\<close> belongs to the
  host: from the elements of \<^verbatim>\<open>this\<close> and the arguments it gives the new elements and
  what it returns, which is a value, \<^verbatim>\<open>this\<close>, or a new array.
\<close>

datatype array_method = Push | Pop | Shift | Unshift | Splice | Sort | Reverse

datatype oresult = Ret jsval | RetThis | RetNew "jsval list"

type_synonym original = "array_method \<Rightarrow> jsval list \<Rightarrow> jsval list \<Rightarrow> jsval list \<times> oresult"

definition new_array :: "jsval list \<Rightarrow> obj" where
  "new_array xs =
     \<lparr>kind = ArrayObject, extensible = True, isVue = False, ob = None, patched = False,
      props = [], elems = xs\<rparr>"

text \<open>\<^verbatim>\<open>original.apply(this, args)\<close>\<close>

definition apply_original :: "original \<Rightarrow> array_method \<Rightarrow> nat \<Rightarrow> jsval list \<Rightarrow> world \<Rightarrow> jsval \<times> world" where
  "apply_original orig m a args W =
     (case orig m (elems (objs W ! a)) args of
        (es, r) \<Rightarrow>
          let W1 = set_obj W a ((objs W ! a)\<lparr>elems := es\<rparr>)
          in (case r of
                Ret v \<Rightarrow> (v, W1)
              | RetThis \<Rightarrow> (Obj a, W1)
              | RetNew xs \<Rightarrow> (Obj (length (objs W1)), W1\<lparr>objs := objs W1 @ [new_array xs]\<rparr>)))"

text \<open>\<^verbatim>\<open>inserted\<close>; \<open>None\<close> is \<^verbatim>\<open>undefined\<close>.\<close>

fun inserted :: "array_method \<Rightarrow> jsval list \<Rightarrow> jsval list option" where
  "inserted Push args = Some args"
| "inserted Unshift args = Some args"
| "inserted Splice args = Some (drop 2 args)"
| "inserted _ args = None"

text \<open>
  \<^verbatim>\<open>mutator\<close>, the function that replaces each of the seven methods. Without an
  Observer on \<^verbatim>\<open>this\<close>, \<^verbatim>\<open>ob.observeArray\<close> or \<^verbatim>\<open>ob.dep\<close> throws.
\<close>

definition mutator :: "original \<Rightarrow> array_method \<Rightarrow> nat \<Rightarrow> jsval list \<Rightarrow> world \<Rightarrow> jserror + (jsval \<times> world)" where
  "mutator orig m a args W =
     (case apply_original orig m a args W of
        (result, W1) \<Rightarrow>
          (case ob (objs W1 ! a) of
             None \<Rightarrow> Inl TypeError
           | Some b \<Rightarrow>
               let W2 = (case inserted m args of Some xs \<Rightarrow> observeArray W1 xs | None \<Rightarrow> W1)
               in Inr (result, W2\<lparr>notified := notified W2 @ [o_dep (observers W2 ! b)]\<rparr>)))"

text \<open>A call \<^verbatim>\<open>arr.method(...args)\<close> on an array of the store.\<close>

definition call_method :: "original \<Rightarrow> array_method \<Rightarrow> nat \<Rightarrow> jsval list \<Rightarrow> world \<Rightarrow> jserror + (jsval \<times> world)" where
  "call_method orig m a args W =
     (if patched (objs W ! a) then mutator orig m a args W
      else Inr (apply_original orig m a args W))"

section \<open>set and del\<close>

definition warn :: "config \<Rightarrow> world \<Rightarrow> world" where
  "warn cfg W = (if dev cfg then W\<lparr>warnings := warnings W + 1\<rparr> else W)"

text \<open>\<^verbatim>\<open>isUndef(v) || isPrimitive(v)\<close>\<close>

fun undef_or_primitive :: "jsval \<Rightarrow> bool" where
  "undef_or_primitive (Obj _) = False"
| "undef_or_primitive (Func _) = False"
| "undef_or_primitive _ = True"



text \<open>Own properties of a string: \<^verbatim>\<open>length\<close> and the indices below it.\<close>

fun string_own :: "string \<Rightarrow> pkey \<Rightarrow> bool" where
  "string_own s (PIndex i) = (i < length s)"
| "string_own s (PName k) = (k = ''length'')"

text \<open>
  \<^verbatim>\<open>del(target, key)\<close>. \<^verbatim>\<open>tgt.__ob__\<close> throws on \<^verbatim>\<open>undefined\<close> and
  \<^verbatim>\<open>null\<close>; \<^verbatim>\<open>delete\<close> throws in strict code on a property that is not
  configurable. Arrays are modelled with an index key.
\<close>

definition del :: "config \<Rightarrow> original \<Rightarrow> world \<Rightarrow> jsval \<Rightarrow> pkey \<Rightarrow> jserror + world" where
  "del cfg orig W tgt key =
     (let W0 = (if undef_or_primitive tgt then warn cfg W else W) in
      case tgt of
        Obj a \<Rightarrow>
          let x = objs W0 ! a; k = key_name key in
          if kind x = ArrayObject \<and> isValidArrayIndex key then
            (case key of
               PIndex i \<Rightarrow>
                 (case call_method orig Splice a [Num (Fin (real i)), Num (Fin 1)] W0 of
                    Inl err \<Rightarrow> Inl err
                  | Inr (_, W1) \<Rightarrow> Inr W1)
             | PName _ \<Rightarrow> Inl Unmodelled)
          else if kind x = ArrayObject then Inl Unmodelled
          else if isVue x \<or> (case ob x of Some b \<Rightarrow> vmCount (observers W0 ! b) \<noteq> 0 | None \<Rightarrow> False)
          then Inr (warn cfg W0)
          else if \<not> hasOwn x k then Inr W0
          else
            (case (if k = ''__ob__'' then Some (x\<lparr>ob := None\<rparr>)
                   else if configurable (the (lookup (props x) k))
                   then Some (x\<lparr>props := filter (\<lambda>(k', d). k' \<noteq> k) (props x)\<rparr>)
                   else None) of
               None \<Rightarrow> Inl TypeError
             | Some x' \<Rightarrow>
                 let W1 = set_obj W0 a x' in
                 (case ob x of
                    None \<Rightarrow> Inr W1
                  | Some b \<Rightarrow> Inr (W1\<lparr>notified := notified W1 @ [o_dep (observers W1 ! b)]\<rparr>)))
      | Undefined \<Rightarrow> Inl TypeError
      | Null \<Rightarrow> Inl TypeError
      | Str s \<Rightarrow> if string_own s key then Inl TypeError else Inr W0
      | Func _ \<Rightarrow> Inl Unmodelled
      | _ \<Rightarrow> Inr W0)"

section \<open>Properties: the predicates and the inputs they are stated with\<close>





text \<open>The position at which \<^verbatim>\<open>queueWatcher\<close> splices a watcher in during a flush.\<close>

definition splice_pos :: "sched \<Rightarrow> nat \<Rightarrow> nat" where
  "splice_pos s w = nat (scan_back (queue s) (index s) w (int (length (queue s)) - 1) + 1)"

text \<open>
  Inside a pass of the flush loop: the entries after the current one are in strictly
  ascending id order and are all marked in \<^verbatim>\<open>has\<close>.
\<close>

definition unrun_sorted :: "sched \<Rightarrow> bool" where
  "unrun_sorted s \<longleftrightarrow>
     flushing s \<and> index s < length (queue s) \<and>
     sorted_wrt (<) (drop (index s + 1) (queue s)) \<and>
     (\<forall>x \<in> set (drop (index s + 1) (queue s)). has s x)"

text \<open>At the loop test: the same for the entries from the current one on.\<close>

definition drain_inv :: "sched \<Rightarrow> bool" where
  "drain_inv s \<longleftrightarrow>
     flushing s \<and> index s \<le> length (queue s) \<and>
     sorted_wrt (<) (drop (index s) (queue s)) \<and>
     (\<forall>x \<in> set (drop (index s) (queue s)). has s x)"

text \<open>
  The number of queue entries whose \<^verbatim>\<open>run()\<close> has been called when the loop is
  left in state \<open>s\<close>: \<^verbatim>\<open>break\<close> leaves \<^verbatim>\<open>index\<close> on the entry just run.
\<close>

definition stop_pos :: "status \<Rightarrow> sched \<Rightarrow> nat" where
  "stop_pos st s = index s + (if st = Aborted then 1 else 0)"

text \<open>
  The queue as \<^verbatim>\<open>queueWatcher\<close> builds it between flushes: no watcher twice, every
  entry marked in \<^verbatim>\<open>has\<close>.
\<close>

definition queue_consistent :: "sched \<Rightarrow> bool" where
  "queue_consistent s \<longleftrightarrow> distinct (queue s) \<and> (\<forall>x \<in> set (queue s). has s x)"

text \<open>User code that calls \<^verbatim>\<open>queueWatcher\<close> on no watcher.\<close>

definition quiet :: "'u behaviour" where
  "quiet u w = (u, [])"

text \<open>
  Scenario: the first run of watcher 5 enqueues watcher 4; the flag records that it has
  done so.
\<close>

definition requeue4 :: "bool behaviour" where
  "requeue4 u w = (if w = 5 \<and> \<not> u then (True, [4]) else (u, []))"

text \<open>Scenario: every run of a watcher enqueues that watcher again.\<close>

definition requeue_self :: "unit behaviour" where
  "requeue_self u w = (u, [w])"

text \<open>The scheduler between flushes with the given watchers queued and a flush pending.\<close>

definition queued :: "nat list \<Rightarrow> sched" where
  "queued ws =
     \<lparr>queue = ws, has = (\<lambda>x. x \<in> set ws), circular = (\<lambda>_. 0), waiting = True,
      flushing = False, index = 0, runs = [], warned = []\<rparr>"

definition dev_async :: config where
  "dev_async = \<lparr>dev = True, async = True\<rparr>"

text \<open>A flush at its first entry, with watchers 2, 3 and 6 still to run.\<close>

definition mid_flush :: sched where
  "mid_flush =
     \<lparr>queue = [1, 2, 3, 6], has = (\<lambda>x. x \<in> set [2, 3, 6]), circular = (\<lambda>_. 0),
      waiting = True, flushing = True, index = 0, runs = [], warned = []\<rparr>"

text \<open>Scenario: each run of watcher 1 enqueues watcher 2 and each run of 2 enqueues 1.\<close>

definition ping_pong :: "unit behaviour" where
  "ping_pong u w = (u, [if w = 1 then 2 else 1])"

text \<open>The run order of the last scenario: 1, 2, 1, 2, ...\<close>

definition alt_at :: "nat \<Rightarrow> nat" where
  "alt_at j = (if even j then 1 else 2)"

definition alt :: "nat \<Rightarrow> nat list" where
  "alt n = map alt_at [0..<n]"



text \<open>
  What observing values leaves alone: the traces and switches of the module, the number
  of objects, the kind, flags and elements of every object, the Observer an object
  already carries, and the Observers that already exist.
\<close>

definition frame :: "world \<Rightarrow> world \<Rightarrow> bool" where
  "frame W W' \<longleftrightarrow>
     notified W' = notified W \<and> setter_calls W' = setter_calls W \<and>
     custom_calls W' = custom_calls W \<and> warnings W' = warnings W \<and>
     getter_value W' = getter_value W \<and> shouldObserve W' = shouldObserve W \<and>
     serverRendering W' = serverRendering W \<and>
     length (objs W') = length (objs W) \<and>
     (\<forall>a < length (objs W).
        kind (objs W' ! a) = kind (objs W ! a) \<and>
        extensible (objs W' ! a) = extensible (objs W ! a) \<and>
        isVue (objs W' ! a) = isVue (objs W ! a) \<and>
        elems (objs W' ! a) = elems (objs W ! a) \<and>
        (ob (objs W ! a) \<noteq> None \<longrightarrow> ob (objs W' ! a) = ob (objs W ! a))) \<and>
     take (length (observers W)) (observers W') = observers W"

text \<open>The value a reactive property holds: \<^verbatim>\<open>getter ? getter.call(obj) : val\<close>.\<close>

definition current_value :: "world \<Rightarrow> cell \<Rightarrow> jsval" where
  "current_value W c = (case c_getter c of Some f \<Rightarrow> getter_value W f | None \<Rightarrow> c_val c)"

text \<open>A module state with no objects, and a property closure holding \<open>v\<close>.\<close>

definition empty_world :: world where
  "empty_world =
     \<lparr>objs = [], observers = [], dep_uid = 0, shouldObserve = True, serverRendering = False,
      getter_value = (\<lambda>_. Undefined), setter_calls = [], notified = [], custom_calls = 0,
      warnings = 0\<rparr>"

definition plain_cell :: "nat \<Rightarrow> jsval \<Rightarrow> cell" where
  "plain_cell d v =
     \<lparr>c_dep = d, c_val = v, c_getter = None, c_setter = None, c_custom = False,
      c_shallow = False, c_childOb = None\<rparr>"

text \<open>
  A module state with one observed, empty plain record at address 0, whose Observer 0
  owns dep 0; the same with the record as root data of one component; and one with an
  observed array holding the number 1.
\<close>

definition record_world :: world where
  "record_world =
     empty_world\<lparr>objs := [\<lparr>kind = PlainObject, extensible = True, isVue = False, ob = Some 0,
                            patched = False, props = [], elems = []\<rparr>],
                  observers := [\<lparr>o_value = 0, o_dep = 0, vmCount = 0\<rparr>],
                  dep_uid := 1\<rparr>"

definition root_world :: world where
  "root_world = record_world\<lparr>observers := [\<lparr>o_value = 0, o_dep = 0, vmCount = 1\<rparr>]\<rparr>"

definition array_world :: world where
  "array_world =
     empty_world\<lparr>objs := [\<lparr>kind = ArrayObject, extensible = True, isVue = False, ob = Some 0,
                            patched = True, props = [], elems = [Num (Fin 1)]\<rparr>],
                  observers := [\<lparr>o_value = 0, o_dep = 0, vmCount = 0\<rparr>],
                  dep_uid := 1\<rparr>"

text \<open>
  A host whose \<^verbatim>\<open>push\<close> appends its arguments and returns the new length; the other
  six methods are not used with it and leave the array alone.
\<close>

definition push_original :: original where
  "push_original m es args =
     (if m = Push then (es @ args, Ret (Num (Fin (real (length (es @ args))))))
      else (es, Ret Undefined))"

text \<open>\<^verbatim>\<open>hasOwn(target, key)\<close> for any target: objects of the store and strings.\<close>

definition target_has_own :: "world \<Rightarrow> jsval \<Rightarrow> pkey \<Rightarrow> bool" where
  "target_has_own W tgt key =
     (case tgt of
        Obj a \<Rightarrow> hasOwn (objs W ! a) (key_name key)
      | Str s \<Rightarrow> string_own s key
      | _ \<Rightarrow> False)"





section \<open>Properties: proofs\<close>

lemma removeSubs_watchers [simp]:
  "watchers (foldr (\<lambda>d h'. if P d then removeSub h' d w else h') ds h) = watchers h"
  by (induction ds) (auto simp: removeSub_def)



lemma removeAllSubs_watchers [simp]:
  "watchers (foldr (\<lambda>d h'. removeSub h' d w) ds h) = watchers h"
  using removeSubs_watchers [of "\<lambda>_. True"] by simp















lemma scan_back_bounds:
  "scan_back q idx wid i \<le> i \<and> (int idx \<le> i \<longrightarrow> int idx \<le> scan_back q idx wid i)"
proof (induction q idx wid i rule: scan_back.induct)
  case (1 q idx wid i)
  show ?case
  proof (cases "i > int idx \<and> q ! nat i > wid")
    case True
    then show ?thesis using 1 by (subst scan_back.simps, subst (2) scan_back.simps) auto
  next
    case False
    then show ?thesis by (subst scan_back.simps, subst (2) scan_back.simps) auto
  qed
qed

lemma scan_back_above:
  "scan_back q idx wid i < k \<Longrightarrow> k \<le> i \<Longrightarrow> wid < q ! nat k"
proof (induction q idx wid i rule: scan_back.induct)
  case (1 q idx wid i)
  show ?case
  proof (cases "i > int idx \<and> q ! nat i > wid")
    case True
    then have eq: "scan_back q idx wid i = scan_back q idx wid (i - 1)"
      by (subst scan_back.simps) simp
    show ?thesis
    proof (cases "k = i")
      case True
      then show ?thesis using \<open>i > int idx \<and> q ! nat i > wid\<close> by simp
    next
      case False
      then show ?thesis using 1 True eq by auto
    qed
  next
    case False
    then have "scan_back q idx wid i = i" by (subst scan_back.simps) auto
    then show ?thesis using 1(2,3) by simp
  qed
qed

lemma scan_back_stop:
  "int idx < scan_back q idx wid i \<Longrightarrow> q ! nat (scan_back q idx wid i) \<le> wid"
proof (induction q idx wid i rule: scan_back.induct)
  case (1 q idx wid i)
  show ?case
  proof (cases "i > int idx \<and> q ! nat i > wid")
    case True
    then have eq: "scan_back q idx wid i = scan_back q idx wid (i - 1)"
      by (subst scan_back.simps) simp
    show ?thesis using 1 True eq by auto
  next
    case False
    then have "scan_back q idx wid i = i" by (subst scan_back.simps) auto
    then show ?thesis using 1(2) False by auto
  qed
qed

lemma splice_pos_bounds:
  assumes "index s < length (queue s)"
  shows "index s < splice_pos s w" "splice_pos s w \<le> length (queue s)"
  using scan_back_bounds [of "queue s" "index s" w "int (length (queue s)) - 1"] assms
  by (auto simp: splice_pos_def)

lemma splice_pos_above:
  assumes "index s < length (queue s)" "x \<in> set (drop (splice_pos s w) (queue s))"
  shows "w < x"
proof -
  from assms(2) obtain j where j: "j < length (queue s) - splice_pos s w"
    "x = queue s ! (splice_pos s w + j)"
    by (auto simp: in_set_conv_nth)
  let ?k = "int (splice_pos s w + j)"
  have b: "scan_back (queue s) (index s) w (int (length (queue s)) - 1) \<ge> int (index s)"
    using scan_back_bounds [of "queue s" "index s" w "int (length (queue s)) - 1"] assms(1) by auto
  have "scan_back (queue s) (index s) w (int (length (queue s)) - 1) < ?k"
    using b by (simp add: splice_pos_def)
  moreover have "?k \<le> int (length (queue s)) - 1" using j by auto
  ultimately have "w < queue s ! nat ?k" by (rule scan_back_above)
  moreover have "nat ?k = splice_pos s w + j" by (simp only: nat_int)
  ultimately show ?thesis using j by simp
qed

lemma splice_pos_below:
  assumes "index s < length (queue s)" "index s + 1 < splice_pos s w"
  shows "queue s ! (splice_pos s w - 1) \<le> w"
proof -
  let ?j = "scan_back (queue s) (index s) w (int (length (queue s)) - 1)"
  have b: "?j \<ge> int (index s)"
    using scan_back_bounds [of "queue s" "index s" w "int (length (queue s)) - 1"] assms(1) by auto
  have "int (index s) < ?j" using assms(2) b by (simp add: splice_pos_def)
  then have "queue s ! nat ?j \<le> w" by (rule scan_back_stop)
  moreover have "nat ?j = splice_pos s w - 1" using b by (simp add: splice_pos_def)
  ultimately show ?thesis by simp
qed

lemma queueWatcher_flushing:
  assumes "flushing s" "\<not> has s w"
  shows "fst (queueWatcher cfg w s) =
           s\<lparr>has := (has s)(w := True),
             queue := take (splice_pos s w) (queue s) @ w # drop (splice_pos s w) (queue s),
             waiting := True\<rparr>"
  using assms by (cases "waiting s") (simp_all add: queueWatcher_def Let_def splice_pos_def)

lemma queueWatcher_has:
  "has s w \<Longrightarrow> fst (queueWatcher cfg w s) = s"
  by (simp add: queueWatcher_def)


lemma insert_sorted:
  assumes "sorted_wrt (<) (U :: nat list)" "m \<le> length U" "\<forall>x \<in> set (drop m U). w < x"
    "0 < m \<longrightarrow> U ! (m - 1) < w"
  shows "sorted_wrt (<) (take m U @ w # drop m U)"
proof -
  have s1: "sorted_wrt (<) (take m U)" "sorted_wrt (<) (drop m U)"
    using assms(1) by (simp_all add: sorted_wrt_take sorted_wrt_drop)
  have lt: "x < w" if "x \<in> set (take m U)" for x
  proof -
    from that obtain j where j: "j < m" "j < length U" "x = U ! j"
      by (auto simp: in_set_conv_nth)
    have m: "0 < m" "U ! (m - 1) < w" using j assms(4) by auto
    show ?thesis
    proof (cases "j = m - 1")
      case True
      then show ?thesis using m j by simp
    next
      case False
      then have "j < m - 1" using j by simp
      moreover have "m - 1 < length U" using assms(2) m by simp
      ultimately have "U ! j < U ! (m - 1)"
        using assms(1) by (simp add: sorted_wrt_iff_nth_less)
      then show ?thesis using m j by simp
    qed
  qed
  have "\<forall>x \<in> set (take m U). \<forall>y \<in> set (w # drop m U). x < y"
    using lt assms(3) by (auto dest: less_trans)
  then show ?thesis using s1 assms(3) by (simp add: sorted_wrt_append)
qed

lemma queueWatcher_unrun:
  assumes "unrun_sorted s"
  shows "unrun_sorted (fst (queueWatcher cfg w s)) \<and>
      take (index s + 1) (queue (fst (queueWatcher cfg w s))) = take (index s + 1) (queue s) \<and>
      index (fst (queueWatcher cfg w s)) = index s \<and> runs (fst (queueWatcher cfg w s)) = runs s \<and>
      warned (fst (queueWatcher cfg w s)) = warned s \<and>
      circular (fst (queueWatcher cfg w s)) = circular s \<and>
      (\<forall>x \<in> set (drop (index s + 1) (queue (fst (queueWatcher cfg w s)))).
          x \<in> set (drop (index s + 1) (queue s)) \<or> \<not> has s x) \<and>
      (\<forall>x. x \<noteq> w \<longrightarrow> has (fst (queueWatcher cfg w s)) x = has s x) \<and>
      (has s w \<longrightarrow> has (fst (queueWatcher cfg w s)) w)"
proof -
  let ?s' = "fst (queueWatcher cfg w s)"
  have f: "flushing s" and i: "index s < length (queue s)"
    and so: "sorted_wrt (<) (drop (index s + 1) (queue s))"
    and hs: "\<forall>x \<in> set (drop (index s + 1) (queue s)). has s x"
    using assms by (simp_all add: unrun_sorted_def)
  show "unrun_sorted ?s' \<and>
      take (index s + 1) (queue ?s') = take (index s + 1) (queue s) \<and>
      index ?s' = index s \<and> runs ?s' = runs s \<and>
      warned ?s' = warned s \<and> circular ?s' = circular s \<and>
      (\<forall>x \<in> set (drop (index s + 1) (queue ?s')).
          x \<in> set (drop (index s + 1) (queue s)) \<or> \<not> has s x) \<and>
      (\<forall>x. x \<noteq> w \<longrightarrow> has ?s' x = has s x) \<and> (has s w \<longrightarrow> has ?s' w)"
  proof (cases "has s w")
    case True
    then show ?thesis
      using assms by (auto simp add: queueWatcher_has)
  next
    case False
    let ?k = "splice_pos s w"
    let ?q = "queue s"
    let ?U = "drop (index s + 1) ?q"
    let ?m = "?k - (index s + 1)"
    have k: "index s < ?k" "?k \<le> length ?q" using splice_pos_bounds [OF i] by auto
    have eq: "?s' = s\<lparr>has := (has s)(w := True),
             queue := take ?k ?q @ w # drop ?k ?q, waiting := True\<rparr>"
      using f False by (rule queueWatcher_flushing)
    have tk: "take (index s + 1) (take ?k ?q @ w # drop ?k ?q) = take (index s + 1) ?q"
      using k by (simp add: min_def)
    have dr: "drop (index s + 1) (take ?k ?q @ w # drop ?k ?q) = take ?m ?U @ w # drop ?m ?U"
      using k by (simp add: drop_take)
    have above: "\<forall>x \<in> set (drop ?m ?U). w < x"
      using splice_pos_above [OF i] k by simp
    have wnot: "w \<notin> set ?U" using hs False by blast
    have below: "0 < ?m \<longrightarrow> ?U ! (?m - 1) < w"
    proof
      assume m: "0 < ?m"
      then have "index s + 1 < ?k" by simp
      then have le: "?q ! (?k - 1) \<le> w" using splice_pos_below [OF i] by simp
      have ar: "index s + 1 + (?m - 1) = ?k - 1" using m by arith
      have "?U ! (?m - 1) = ?q ! (index s + 1 + (?m - 1))"
        using k by (intro nth_drop) simp
      then have idx: "?U ! (?m - 1) = ?q ! (?k - 1)" by (simp only: ar)
      have "?m - 1 < length ?U" using m k by simp
      then have "?U ! (?m - 1) \<in> set ?U" by (rule nth_mem)
      then have "?U ! (?m - 1) \<noteq> w" using wnot by metis
      then show "?U ! (?m - 1) < w" using le idx by simp
    qed
    have srt: "sorted_wrt (<) (take ?m ?U @ w # drop ?m ?U)"
      using so _ above below by (rule insert_sorted) (use k in simp)
    have sub: "set (take ?m ?U @ w # drop ?m ?U) \<subseteq> insert w (set ?U)"
      using set_take_subset [of ?m ?U] set_drop_subset [of ?m ?U] by auto
    have hs': "\<forall>x \<in> set (take ?m ?U @ w # drop ?m ?U). ((has s)(w := True)) x"
      using sub hs by auto
    show ?thesis
      unfolding eq unrun_sorted_def using f i tk dr srt hs' sub False
      by (auto simp del: drop_append take_append)
  qed
qed


lemma queueWatcher_frame:
  "runs (fst (queueWatcher cfg w s)) = runs s \<and> warned (fst (queueWatcher cfg w s)) = warned s \<and>
   circular (fst (queueWatcher cfg w s)) = circular s \<and>
   index (fst (queueWatcher cfg w s)) = index s \<and>
   flushing (fst (queueWatcher cfg w s)) = flushing s \<and>
   (\<forall>x. has (fst (queueWatcher cfg w s)) x = (has s x \<or> x = w))"
  by (auto simp: queueWatcher_def Let_def)

lemma enqueue_all_frame:
  "runs (enqueue_all cfg ws s) = runs s \<and> warned (enqueue_all cfg ws s) = warned s \<and>
   circular (enqueue_all cfg ws s) = circular s \<and> index (enqueue_all cfg ws s) = index s \<and>
   flushing (enqueue_all cfg ws s) = flushing s \<and>
   (\<forall>x. has (enqueue_all cfg ws s) x = (has s x \<or> x \<in> set ws))"
proof (induction ws arbitrary: s)
  case Nil
  then show ?case by (simp add: enqueue_all_def)
next
  case (Cons a ws)
  have st: "enqueue_all cfg (a # ws) s = enqueue_all cfg ws (fst (queueWatcher cfg a s))"
    by (simp add: enqueue_all_def)
  show ?case unfolding st using Cons [of "fst (queueWatcher cfg a s)"] queueWatcher_frame [of cfg a s]
    by auto
qed

lemma enqueue_all_unrun:
  assumes "unrun_sorted s"
  shows "unrun_sorted (enqueue_all cfg ws s) \<and>
      take (index s + 1) (queue (enqueue_all cfg ws s)) = take (index s + 1) (queue s) \<and>
      (\<forall>x \<in> set (drop (index s + 1) (queue (enqueue_all cfg ws s))).
          x \<in> set (drop (index s + 1) (queue s)) \<or> \<not> has s x)"
  using assms
proof (induction ws arbitrary: s)
  case Nil
  then show ?case by (simp add: enqueue_all_def)
next
  case (Cons a ws)
  let ?s1 = "fst (queueWatcher cfg a s)"
  have st: "enqueue_all cfg (a # ws) s = enqueue_all cfg ws ?s1"
    by (simp add: enqueue_all_def)
  note q = queueWatcher_unrun [OF Cons.prems, of cfg a]
  have u1: "unrun_sorted ?s1" and i1: "index ?s1 = index s" using q by simp_all
  note ih = Cons.IH [OF u1]
  have mono: "has s x \<Longrightarrow> has ?s1 x" for x using q by (cases "x = a") auto
  show ?case unfolding st using ih q mono unfolding i1 by auto
qed

lemma flush_body_order:
  assumes inv: "drain_inv s" and lt: "index s < length (queue s)"
    and fb: "flush_body cfg beforew runw (u, s) = ((u', s'), brk)"
  shows "unrun_sorted s' \<and> index s' = index s \<and>
         take (index s + 1) (queue s') = take (index s + 1) (queue s) \<and>
         runs s' = runs s @ [queue s ! index s]"
proof -
  let ?w = "queue s ! index s"
  obtain u1 es1 where b: "beforew u ?w = (u1, es1)" by force
  obtain u2 es2 where r: "runw u1 ?w = (u2, es2)" by force
  let ?s1 = "enqueue_all cfg es1 s"
  let ?s2 = "?s1\<lparr>has := (has ?s1)(?w := False)\<rparr>"
  let ?s3 = "(enqueue_all cfg es2 ?s2)\<lparr>runs := runs ?s2 @ [?w]\<rparr>"
  have dq: "drop (index s) (queue s) = ?w # drop (index s + 1) (queue s)"
    using lt by (simp add: Cons_nth_drop_Suc)
  have so: "sorted_wrt (<) (?w # drop (index s + 1) (queue s))"
    and hs: "\<forall>x \<in> set (?w # drop (index s + 1) (queue s)). has s x"
    and fl: "flushing s"
    using inv unfolding drain_inv_def dq by auto
  have un: "unrun_sorted s" using so hs fl lt by (simp add: unrun_sorted_def)
  have hw: "has s ?w" using hs by simp
  have wn: "?w \<notin> set (drop (index s + 1) (queue s))" using so by auto
  note e1 = enqueue_all_unrun [OF un, of cfg es1]
  note f1 = enqueue_all_frame [of cfg es1 s]
  have i1: "index ?s1 = index s" using f1 by simp
  have wn1: "?w \<notin> set (drop (index s + 1) (queue ?s1))" using e1 wn hw by blast
  have un2: "unrun_sorted ?s2"
    using e1 wn1 i1 by (auto simp: unrun_sorted_def)
  have i2: "index ?s2 = index s" using i1 by simp
  note e2 = enqueue_all_unrun [OF un2, of cfg es2]
  note f2 = enqueue_all_frame [of cfg es2 ?s2]
  have un3: "unrun_sorted ?s3" using e2 f2 by (simp add: unrun_sorted_def)
  have i3: "index ?s3 = index s" using f2 i1 by simp
  have t3: "take (index s + 1) (queue ?s3) = take (index s + 1) (queue s)"
    using e1 e2 unfolding i2 by simp
  have r3: "runs ?s3 = runs s @ [?w]" using f1 by simp
  have s': "unrun_sorted s' \<and> index s' = index s \<and> queue s' = queue ?s3 \<and> runs s' = runs ?s3"
    using fb un3 i3 unfolding flush_body_def
    by (auto simp: b r Let_def unrun_sorted_def split: if_splits)
  show ?thesis using s' t3 r3 by simp
qed


lemma unrun_sorted_next:
  "unrun_sorted s \<Longrightarrow> drain_inv (s\<lparr>index := index s + 1\<rparr>)"
  by (auto simp: unrun_sorted_def drain_inv_def)

lemma take_Suc_eq_nth:
  assumes "take (Suc i) xs = take (Suc i) ys" "i < length xs" "i < length ys"
  shows "xs ! i = ys ! i" "take i xs = take i ys"
proof -
  have "take (Suc i) xs ! i = take (Suc i) ys ! i" using assms(1) by simp
  then show "xs ! i = ys ! i" by simp
  have "take i (take (Suc i) xs) = take i (take (Suc i) ys)" using assms(1) by simp
  then show "take i xs = take i ys" by (simp add: min_def)
qed

lemma drain_order:
  assumes "drain_inv s" "drain cfg beforew runw n (u, s) = (st, u', s')"
  shows "take (index s) (queue s') = take (index s) (queue s) \<and>
         index s \<le> stop_pos st s' \<and> stop_pos st s' \<le> length (queue s') \<and>
         runs s' = runs s @ drop (index s) (take (stop_pos st s') (queue s')) \<and>
         sorted_wrt (<) (drop (stop_pos st s') (queue s')) \<and>
         (st = Finished \<longrightarrow> index s' = length (queue s'))"
  using assms
proof (induction n arbitrary: u s)
  case 0
  then show ?case by (auto simp: stop_pos_def drain_inv_def split: if_splits)
next
  case (Suc n)
  show ?case
  proof (cases "index s < length (queue s)")
    case False
    then show ?thesis using Suc.prems
      by (auto simp: stop_pos_def drain_inv_def split: if_splits)
  next
    case True
    obtain u1 s1 brk where fb: "flush_body cfg beforew runw (u, s) = ((u1, s1), brk)"
      by (metis surj_pair)
    note o = flush_body_order [OF Suc.prems(1) True fb]
    have un: "unrun_sorted s1" and i1: "index s1 = index s"
      and t1: "take (Suc (index s)) (queue s1) = take (Suc (index s)) (queue s)"
      and r1: "runs s1 = runs s @ [queue s ! index s]"
      using o by simp_all
    have l1: "index s < length (queue s1)" using un i1 by (simp add: unrun_sorted_def)
    note n1 = take_Suc_eq_nth [OF t1 l1 True]
    show ?thesis
    proof (cases brk)
      case True
      then have res: "st = Aborted" "s' = s1"
        using Suc.prems(2) \<open>index s < length (queue s)\<close> fb by simp_all
      have "drop (index s) (take (Suc (index s)) (queue s1)) = [queue s1 ! index s]"
        using l1 by (simp add: take_Suc_conv_app_nth)
      then show ?thesis using res un i1 n1 r1 l1
        by (simp add: stop_pos_def unrun_sorted_def)
    next
      case False
      let ?s2 = "s1\<lparr>index := index s1 + 1\<rparr>"
      have d: "drain cfg beforew runw n (u1, ?s2) = (st, u', s')"
        using Suc.prems(2) \<open>index s < length (queue s)\<close> fb False by simp
      note ih = Suc.IH [OF unrun_sorted_next [OF un] d]
      let ?p = "stop_pos st s'"
      have t': "take (Suc (index s)) (queue s') = take (Suc (index s)) (queue s1)"
        and p: "Suc (index s) \<le> ?p" "?p \<le> length (queue s')"
        and r': "runs s' = runs s1 @ drop (Suc (index s)) (take ?p (queue s'))"
        and so: "sorted_wrt (<) (drop ?p (queue s'))"
        and fin: "st = Finished \<longrightarrow> index s' = length (queue s')"
        using ih i1 by simp_all
      have l': "index s < length (queue s')" using p by simp
      note n' = take_Suc_eq_nth [OF t' l' l1]
      have "drop (index s) (take ?p (queue s')) =
              take ?p (queue s') ! index s # drop (Suc (index s)) (take ?p (queue s'))"
        using p by (intro Cons_nth_drop_Suc [symmetric]) simp
      also have "take ?p (queue s') ! index s = queue s ! index s"
        using p n' n1 by simp
      finally have dr: "drop (index s) (take ?p (queue s')) =
              queue s ! index s # drop (Suc (index s)) (take ?p (queue s'))" .
      show ?thesis using n' n1 p r' r1 so fin dr by simp
    qed
  qed
qed

lemma flush_start_inv:
  assumes "queue_consistent s"
  shows "drain_inv (flush_start s)"
proof -
  have "sorted_wrt (<) (sort (queue s))"
    using assms by (simp add: queue_consistent_def strict_sorted_iff)
  then show ?thesis
    using assms by (simp add: drain_inv_def flush_start_def queue_consistent_def)
qed

lemma enqueue_all_nil [simp]: "enqueue_all cfg [] s = s"
  by (simp add: enqueue_all_def)

lemma flush_body_quiet:
  assumes "\<forall>u w. snd (beforew u w) = [] \<and> snd (runw u w) = []"
    and "flush_body cfg beforew runw (u, s) = ((u', s'), brk)"
  shows "queue s' = queue s \<and> \<not> brk \<and> index s' = index s"
proof -
  let ?w = "queue s ! index s"
  obtain u1 es1 where b: "beforew u ?w = (u1, es1)" by force
  obtain u2 es2 where r: "runw u1 ?w = (u2, es2)" by force
  have e: "es1 = []" "es2 = []" using assms(1) b r by (metis snd_conv)+
  show ?thesis using assms(2) unfolding flush_body_def
    by (auto simp: b r e Let_def split: if_splits)
qed

lemma drain_quiet:
  assumes "\<forall>u w. snd (beforew u w) = [] \<and> snd (runw u w) = []"
    and "drain cfg beforew runw n (u, s) = (st, u', s')"
  shows "queue s' = queue s \<and> st \<noteq> Aborted \<and>
         (length (queue s) - index s \<le> n \<longrightarrow> st = Finished)"
  using assms(2)
proof (induction n arbitrary: u s)
  case 0
  then show ?case by (auto split: if_splits)
next
  case (Suc n)
  show ?case
  proof (cases "index s < length (queue s)")
    case False
    then show ?thesis using Suc.prems by auto
  next
    case True
    obtain u1 s1 brk where fb: "flush_body cfg beforew runw (u, s) = ((u1, s1), brk)"
      by (metis surj_pair)
    note q = flush_body_quiet [OF assms(1) fb]
    have d: "drain cfg beforew runw n (u1, s1\<lparr>index := index s1 + 1\<rparr>) = (st, u', s')"
      using Suc.prems True fb q by simp
    show ?thesis using Suc.IH [OF d] q by auto
  qed
qed

lemma scan_back_stay: "\<not> int idx < i \<Longrightarrow> scan_back q idx wid i = i"
  by (subst scan_back.simps) simp

lemma splice_pos_last:
  assumes "Suc (index s) = length (queue s)"
  shows "splice_pos s w = length (queue s)"
proof -
  have "scan_back (queue s) (index s) w (int (length (queue s)) - 1) = int (length (queue s)) - 1"
    using assms by (intro scan_back_stay) simp
  then show ?thesis using assms by (simp add: splice_pos_def)
qed

lemma queueWatcher_last:
  assumes "flushing s" "\<not> has s w" "Suc (index s) = length (queue s)"
  shows "fst (queueWatcher cfg w s) =
           s\<lparr>has := (has s)(w := True), queue := queue s @ [w], waiting := True\<rparr>"
  using queueWatcher_flushing [OF assms(1,2), of cfg] splice_pos_last [OF assms(3), of w]
  by simp

lemma flush_body_last:
  assumes "flushing s" "Suc (index s) = length (queue s)"
    and "beforew u (queue s ! index s) = (u, [])"
    and "runw u (queue s ! index s) = (u', [x])"
    and "x = queue s ! index s \<or> \<not> has s x"
  shows "flush_body cfg beforew runw (u, s) =
     (let w = queue s ! index s;
          s3 = s\<lparr>has := (has s)(w := False, x := True), queue := queue s @ [x],
                 waiting := True, runs := runs s @ [w]\<rparr>
      in if dev cfg \<and> x = w then
           let s4 = s3\<lparr>circular := (circular s3)(w := circular s3 w + 1)\<rparr>
           in if circular s4 w > MAX_UPDATE_COUNT
              then ((u', s4\<lparr>warned := warned s4 @ [w]\<rparr>), True)
              else ((u', s4), False)
         else ((u', s3), False))"
proof -
  have q: "fst (queueWatcher cfg x (s\<lparr>has := (has s)(y := False)\<rparr>)) =
           s\<lparr>has := (has s)(y := False, x := True), queue := queue s @ [x], waiting := True\<rparr>"
    if "x = y \<or> \<not> has s x" for y
    using assms(1,2) that
      queueWatcher_last [of "s\<lparr>has := (has s)(y := False)\<rparr>" x cfg]
    by auto
  show ?thesis
  proof (cases "x = queue s ! index s")
    case True
    have a: "beforew u x = (u, [])" "runw u x = (u', [x])" using assms(3,4) True by simp_all
    show ?thesis
      unfolding flush_body_def
      by (simp add: True [symmetric] a enqueue_all_def q Let_def)
  next
    case False
    then have "\<not> has s x" using assms(5) by simp
    then show ?thesis
      unfolding flush_body_def
      using False by (simp add: assms(3,4) enqueue_all_def q Let_def)
  qed
qed

lemma self_body:
  assumes "queue s = replicate (Suc k) 1" "has s 1" "circular s 1 = k" "index s = k"
    "flushing s" "runs s = replicate k 1" "warned s = []"
  shows "\<exists>s1. flush_body dev_async quiet requeue_self ((), s) = (((), s1), 100 \<le> k) \<and>
          queue s1 = replicate (Suc (Suc k)) 1 \<and> has s1 1 \<and> circular s1 1 = Suc k \<and>
          index s1 = k \<and> flushing s1 \<and> runs s1 = replicate (Suc k) 1 \<and>
          warned s1 = (if 100 \<le> k then [1] else [])"
proof -
  have w: "queue s ! index s = 1"
    unfolding assms(1) assms(4) by (rule nth_replicate) simp
  have l: "Suc (index s) = length (queue s)" using assms by simp
  have r: "replicate k (Suc 0) @ [Suc 0] = Suc 0 # replicate k (Suc 0)"
    by (simp add: replicate_append_same)
  have fb: "flush_body dev_async quiet requeue_self ((), s) =
     (let w = queue s ! index s;
          s3 = s\<lparr>has := (has s)(w := False, 1 := True), queue := queue s @ [1],
                 waiting := True, runs := runs s @ [w]\<rparr>
      in if dev dev_async \<and> 1 = w then
           let s4 = s3\<lparr>circular := (circular s3)(w := circular s3 w + 1)\<rparr>
           in if circular s4 w > MAX_UPDATE_COUNT
              then (((), s4\<lparr>warned := warned s4 @ [w]\<rparr>), True)
              else (((), s4), False)
         else (((), s3), False))"
    using assms(5) l w by (intro flush_body_last) (simp_all add: quiet_def requeue_self_def)
  show ?thesis
    unfolding fb w using assms
    by (auto simp: Let_def dev_async_def MAX_UPDATE_COUNT_def r)
qed

lemma self_loop:
  assumes "k \<le> 100" "queue s = replicate (Suc k) 1" "has s 1" "circular s 1 = k" "index s = k"
    "flushing s" "runs s = replicate k 1" "warned s = []" "n = 101 - k"
  shows "\<exists>s'. drain dev_async quiet requeue_self (n + m) ((), s) = (Aborted, (), s') \<and>
          runs s' = replicate 101 1 \<and> warned s' = [1] \<and> circular s' 1 = 101"
  using assms
proof (induction n arbitrary: k s)
  case 0
  then show ?case by simp
next
  case (Suc n)
  obtain s1 where b: "flush_body dev_async quiet requeue_self ((), s) = (((), s1), 100 \<le> k)"
    and s1: "queue s1 = replicate (Suc (Suc k)) 1" "has s1 1" "circular s1 1 = Suc k"
      "index s1 = k" "flushing s1" "runs s1 = replicate (Suc k) 1"
      "warned s1 = (if 100 \<le> k then [1] else [])"
    using self_body [OF Suc.prems(2-8)] by blast
  have lt: "index s < length (queue s)" using Suc.prems by simp
  show ?case
  proof (cases "100 \<le> k")
    case True
    then have k: "k = 100" using Suc.prems(1) by simp
    show ?thesis using lt b s1 k by simp
  next
    case False
    let ?s2 = "s1\<lparr>index := index s1 + 1\<rparr>"
    have d: "drain dev_async quiet requeue_self (Suc n + m) ((), s) =
             drain dev_async quiet requeue_self (n + m) ((), ?s2)"
      using lt b False by simp
    have "\<exists>s'. drain dev_async quiet requeue_self (n + m) ((), ?s2) = (Aborted, (), s') \<and>
          runs s' = replicate 101 1 \<and> warned s' = [1] \<and> circular s' 1 = 101"
      using s1 False Suc.prems(9) by (intro Suc.IH [of "Suc k"]) simp_all
    then show ?thesis unfolding d .
  qed
qed

lemma self_loop_run:
  "\<exists>s'. drain dev_async quiet requeue_self 200 ((), flush_start (queued [1])) = (Aborted, (), s') \<and>
        runs s' = replicate 101 1 \<and> warned s' = [1] \<and> circular s' 1 = 101"
proof -
  have "\<exists>s'. drain dev_async quiet requeue_self (101 + 99) ((), flush_start (queued [1])) =
          (Aborted, (), s') \<and> runs s' = replicate 101 1 \<and> warned s' = [1] \<and> circular s' 1 = 101"
    by (rule self_loop [of 0]) (simp_all add: flush_start_def queued_def)
  then show ?thesis by simp
qed

lemma alt_Suc: "alt (Suc n) = alt n @ [alt_at n]"
  by (simp add: alt_def)

lemma alt_at_cases: "alt_at j = 1 \<or> alt_at j = 2" "alt_at (Suc j) \<noteq> alt_at j"
  "alt_at (Suc (Suc j)) = alt_at j"
  by (auto simp: alt_at_def)

lemma ping_body:
  assumes "queue s = alt (Suc j)" "index s = j" "flushing s" "has s (alt_at j)"
    "\<not> has s (alt_at (Suc j))" "runs s = alt j" "warned s = []"
  shows "\<exists>s1. flush_body dev_async quiet ping_pong ((), s) = (((), s1), False) \<and>
          queue s1 = alt (Suc (Suc j)) \<and> index s1 = j \<and> flushing s1 \<and>
          has s1 (alt_at (Suc j)) \<and> \<not> has s1 (alt_at j) \<and> runs s1 = alt (Suc j) \<and>
          warned s1 = []"
proof -
  have l: "Suc (index s) = length (queue s)" using assms by (simp add: alt_def)
  have "alt (Suc j) ! j = alt_at j" unfolding alt_def by (simp del: upt_Suc)
  then have w: "queue s ! index s = alt_at j" using assms by simp
  have e: "(if alt_at j = 1 then 2 else 1) = alt_at (Suc j)" by (auto simp: alt_at_def)
  have ne: "alt_at (Suc j) \<noteq> alt_at j" by (rule alt_at_cases)
  have fb: "flush_body dev_async quiet ping_pong ((), s) =
     (let w = queue s ! index s;
          s3 = s\<lparr>has := (has s)(w := False, alt_at (Suc j) := True),
                 queue := queue s @ [alt_at (Suc j)],
                 waiting := True, runs := runs s @ [w]\<rparr>
      in if dev dev_async \<and> alt_at (Suc j) = w then
           let s4 = s3\<lparr>circular := (circular s3)(w := circular s3 w + 1)\<rparr>
           in if circular s4 w > MAX_UPDATE_COUNT
              then (((), s4\<lparr>warned := warned s4 @ [w]\<rparr>), True)
              else (((), s4), False)
         else (((), s3), False))"
    using assms(3,5) l w e by (intro flush_body_last) (simp_all add: quiet_def ping_pong_def)
  show ?thesis
    unfolding fb w using assms ne
    by (simp add: Let_def alt_Suc [of "Suc j"] alt_Suc [of j])
qed

lemma ping_loop:
  assumes "queue s = alt (Suc j)" "index s = j" "flushing s" "has s (alt_at j)"
    "\<not> has s (alt_at (Suc j))" "runs s = alt j" "warned s = []"
  shows "\<exists>s'. drain dev_async quiet ping_pong n ((), s) = (Running, (), s') \<and>
          runs s' = alt (j + n) \<and> warned s' = []"
  using assms
proof (induction n arbitrary: j s)
  case 0
  then show ?case by (simp add: alt_def)
next
  case (Suc n)
  obtain s1 where b: "flush_body dev_async quiet ping_pong ((), s) = (((), s1), False)"
    and s1: "queue s1 = alt (Suc (Suc j))" "index s1 = j" "flushing s1"
      "has s1 (alt_at (Suc j))" "\<not> has s1 (alt_at j)" "runs s1 = alt (Suc j)" "warned s1 = []"
    using ping_body [OF Suc.prems] by blast
  have lt: "index s < length (queue s)" using Suc.prems by (simp add: alt_def)
  let ?s2 = "s1\<lparr>index := index s1 + 1\<rparr>"
  have d: "drain dev_async quiet ping_pong (Suc n) ((), s) =
           drain dev_async quiet ping_pong n ((), ?s2)"
    using lt b by simp
  have "\<exists>s'. drain dev_async quiet ping_pong n ((), ?s2) = (Running, (), s') \<and>
          runs s' = alt (Suc j + n) \<and> warned s' = []"
    using s1 by (intro Suc.IH) (simp_all add: alt_at_cases)
  then show ?case unfolding d by simp
qed

lemma count_alt: "count_list (alt (2 * k)) 1 = k"
  by (induction k) (simp_all add: alt_Suc alt_at_def alt_def)

lemma ping_pong_run:
  "\<exists>s'. drain dev_async quiet ping_pong 210 ((), flush_start (queued [1])) = (Running, (), s') \<and>
        count_list (runs s') 1 = 105 \<and> warned s' = []"
proof -
  have "\<exists>s'. drain dev_async quiet ping_pong 210 ((), flush_start (queued [1])) =
          (Running, (), s') \<and> runs s' = alt (0 + 210) \<and> warned s' = []"
    by (rule ping_loop) (simp_all add: flush_start_def queued_def alt_def alt_at_def)
  moreover have "count_list (alt (2 * 105)) 1 = 105" by (rule count_alt)
  ultimately show ?thesis by auto
qed

lemma flush_body_circular:
  assumes fb: "flush_body cfg beforew runw (u, s) = ((u', s'), brk)"
  shows "runs s' = runs s @ [queue s ! index s] \<and>
         (\<forall>i. i \<noteq> queue s ! index s \<longrightarrow> circular s' i = circular s i) \<and>
         (circular s' (queue s ! index s) = circular s (queue s ! index s) \<or>
          dev cfg \<and> circular s' (queue s ! index s) = Suc (circular s (queue s ! index s))) \<and>
         (dev cfg \<and> (\<forall>v. queue s ! index s \<in> set (snd (runw v (queue s ! index s)))) \<longrightarrow>
            circular s' (queue s ! index s) = Suc (circular s (queue s ! index s))) \<and>
         (brk \<longrightarrow> dev cfg \<and> MAX_UPDATE_COUNT < circular s' (queue s ! index s) \<and>
                 warned s' = warned s @ [queue s ! index s]) \<and>
         (\<not> brk \<longrightarrow> warned s' = warned s \<and>
                 (dev cfg \<longrightarrow> circular s' (queue s ! index s) \<le> MAX_UPDATE_COUNT \<or>
                    circular s' (queue s ! index s) = circular s (queue s ! index s)))"
proof -
  let ?w = "queue s ! index s"
  obtain u1 es1 where b: "beforew u ?w = (u1, es1)" by force
  obtain u2 es2 where r: "runw u1 ?w = (u2, es2)" by force
  let ?s1 = "enqueue_all cfg es1 s"
  let ?s2 = "?s1\<lparr>has := (has ?s1)(?w := False)\<rparr>"
  let ?e = "enqueue_all cfg es2 ?s2"
  note f1 = enqueue_all_frame [of cfg es1 s]
  note f2 = enqueue_all_frame [of cfg es2 ?s2]
  have c: "circular ?e = circular s" "runs ?e = runs s" "warned ?e = warned s"
    "runs ?s1 = runs s"
    using f1 f2 by simp_all
  have h: "has ?e ?w = (?w \<in> set es2)" using f2 by simp
  have self: "?w \<in> set es2" if "\<forall>v. ?w \<in> set (snd (runw v ?w))"
    using that r by (metis snd_conv)
  show ?thesis
    using fb self unfolding flush_body_def
    by (auto simp: b r Let_def c h split: if_splits)
qed


lemma drain_circular:
  assumes "dev cfg" "\<forall>i. circular s i \<le> MAX_UPDATE_COUNT"
    and "drain cfg beforew runw n (u, s) = (st, u', s')"
  shows "(\<forall>i. circular s' i + count_list (runs s) i \<le> circular s i + count_list (runs s') i) \<and>
         (\<forall>i. (\<forall>v. i \<in> set (snd (runw v i))) \<longrightarrow>
              circular s' i + count_list (runs s) i = circular s i + count_list (runs s') i) \<and>
         (st \<noteq> Aborted \<longrightarrow> (\<forall>i. circular s' i \<le> MAX_UPDATE_COUNT) \<and> warned s' = warned s) \<and>
         (st = Aborted \<longrightarrow> runs s' \<noteq> [] \<and>
              circular s' (last (runs s')) = Suc MAX_UPDATE_COUNT \<and>
              (\<forall>i. i \<noteq> last (runs s') \<longrightarrow> circular s' i \<le> MAX_UPDATE_COUNT) \<and>
              warned s' = warned s @ [last (runs s')])"
  using assms(2,3)
proof (induction n arbitrary: u s)
  case 0
  then show ?case by (auto split: if_splits)
next
  case (Suc n)
  show ?case
  proof (cases "index s < length (queue s)")
    case False
    then show ?thesis using Suc.prems by auto
  next
    case True
    let ?w = "queue s ! index s"
    obtain u1 s1 brk where fb: "flush_body cfg beforew runw (u, s) = ((u1, s1), brk)"
      by (metis surj_pair)
    note c = flush_body_circular [OF fb]
    have r1: "runs s1 = runs s @ [?w]"
      and o1: "\<And>i. i \<noteq> ?w \<Longrightarrow> circular s1 i = circular s i"
      and w1: "circular s1 ?w = circular s ?w \<or> circular s1 ?w = Suc (circular s ?w)"
      and sf: "(\<forall>v. ?w \<in> set (snd (runw v ?w))) \<Longrightarrow> circular s1 ?w = Suc (circular s ?w)"
      and bk: "brk \<Longrightarrow> MAX_UPDATE_COUNT < circular s1 ?w \<and> warned s1 = warned s @ [?w]"
      and nb: "\<not> brk \<Longrightarrow> warned s1 = warned s \<and>
                 (circular s1 ?w \<le> MAX_UPDATE_COUNT \<or> circular s1 ?w = circular s ?w)"
      using c assms(1) by auto
    have le: "circular s1 i + count_list (runs s) i \<le> circular s i + count_list (runs s1) i" for i
      using o1 [of i] w1 r1 by (cases "i = ?w") auto
    have eq: "circular s1 i + count_list (runs s) i = circular s i + count_list (runs s1) i"
      if "\<forall>v. i \<in> set (snd (runw v i))" for i
      using o1 [of i] sf r1 that by (cases "i = ?w") auto
    show ?thesis
    proof (cases brk)
      case True
      then have res: "st = Aborted" "s' = s1"
        using Suc.prems(2) \<open>index s < length (queue s)\<close> fb by simp_all
      have "circular s1 ?w = Suc MAX_UPDATE_COUNT"
        using bk [OF True] w1 Suc.prems(1) [rule_format, of ?w] by auto
      moreover have "circular s1 i \<le> MAX_UPDATE_COUNT" if "i \<noteq> ?w" for i
        using o1 [OF that] Suc.prems(1) by simp
      ultimately show ?thesis using res le eq r1 bk [OF True] by auto
    next
      case False
      let ?s2 = "s1\<lparr>index := index s1 + 1\<rparr>"
      have d: "drain cfg beforew runw n (u1, ?s2) = (st, u', s')"
        using Suc.prems(2) True fb False by simp
      have b1: "\<forall>i. circular ?s2 i \<le> MAX_UPDATE_COUNT"
      proof
        fix i
        show "circular ?s2 i \<le> MAX_UPDATE_COUNT"
          using o1 [of i] nb [OF False] Suc.prems(1) [rule_format, of i]
          by (cases "i = ?w") auto
      qed
      note ih = Suc.IH [OF b1 d]
      have le': "circular s' i + count_list (runs s) i \<le> circular s i + count_list (runs s') i"
        for i
        using ih le [of i] by (auto dest: spec [of _ i])
      have eq': "circular s' i + count_list (runs s) i = circular s i + count_list (runs s') i"
        if "\<forall>v. i \<in> set (snd (runw v i))" for i
      proof -
        have "circular s' i + count_list (runs s1) i = circular s1 i + count_list (runs s') i"
          using ih that by simp
        then show ?thesis using eq [OF that] by simp
      qed
      show ?thesis using ih le' eq' nb [OF False] by simp
    qed
  qed
qed

lemma count_list_replicate: "count_list (replicate n x) x = n"
  by (induction n) simp_all





lemma popTarget_frame [simp]:
  "watchers (popTarget h) = watchers h" "subs (popTarget h) = subs h"
  by (simp_all add: popTarget_def Let_def)

lemma pushTarget_frame [simp]:
  "watchers (pushTarget h t) = watchers h" "subs (pushTarget h t) = subs h"
  "target (pushTarget h t) = t"
  by (simp_all add: pushTarget_def)


lemma frame_refl [simp]: "frame W W"
  by (simp add: frame_def)

lemma frame_trans: "frame W1 W2 \<Longrightarrow> frame W2 W3 \<Longrightarrow> frame W1 W3"
proof -
  assume a: "frame W1 W2" and b: "frame W2 W3"
  have a1: "take (length (observers W1)) (observers W2) = observers W1"
    and b1: "take (length (observers W2)) (observers W3) = observers W2"
    using a b by (simp_all add: frame_def)
  have "take (length (observers W1)) (observers W3) =
        take (length (observers W1)) (take (length (observers W2)) (observers W3))"
  proof -
    have "length (take (length (observers W1)) (observers W2)) = length (observers W1)"
      using a1 by simp
    then have "length (observers W1) \<le> length (observers W2)" by simp
    then show ?thesis by (simp add: min_def)
  qed
  then have t: "take (length (observers W1)) (observers W3) = observers W1"
    using a1 b1 by simp
  have r: "\<forall>x < length (objs W1).
        kind (objs W3 ! x) = kind (objs W1 ! x) \<and>
        extensible (objs W3 ! x) = extensible (objs W1 ! x) \<and>
        isVue (objs W3 ! x) = isVue (objs W1 ! x) \<and>
        elems (objs W3 ! x) = elems (objs W1 ! x) \<and>
        (ob (objs W1 ! x) \<noteq> None \<longrightarrow> ob (objs W3 ! x) = ob (objs W1 ! x))"
    using a b unfolding frame_def by (metis (no_types, lifting))
  show ?thesis using a b t r unfolding frame_def by simp
qed

lemma nth_update_same:
  assumes "x < length xs" "a < length xs \<Longrightarrow> f y = f (xs ! a)"
  shows "f (xs[a := y] ! x) = f (xs ! x)"
  using assms by (cases "x = a") auto

lemma frame_new_observer:
  assumes "a < length (objs W)" "ob (objs W ! a) = None"
  shows "frame W (new_observer W a)"
proof -
  have "ob ((objs W)[a := y] ! x) = Some z" if "x < length (objs W)" "ob (objs W ! x) = Some z"
    for x y z
    using that assms by (cases "x = a") auto
  then show ?thesis
    using assms by (auto simp: frame_def new_observer_def Let_def nth_update_same)
qed

lemma frame_observe_head: "frame W (fst (observe_head W v))"
  by (auto simp: observe_head_def frame_new_observer split: jsval.splits)

lemma frame_define_head: "frame W (fst (define_head W a k vo cu sh))"
  by (simp add: define_head_def Let_def frame_def)

lemma frame_install: "frame W (install W a k c)"
  by (simp add: install_def set_obj_def Let_def frame_def nth_update_same)

lemma frame_run_tasks: "frame W (run_tasks ts W)"
proof (induction ts W rule: run_tasks.induct)
  case (1 W)
  then show ?case by simp
next
  case (2 v ts W)
  show ?case using frame_trans [OF frame_observe_head 2] by simp
next
  case (3 a k ts W)
  show ?case using frame_trans [OF frame_define_head 3] by simp
next
  case (4 a k c ts W)
  show ?case using frame_trans [OF frame_install 4] by simp
qed

lemma frame_observe_False: "frame W (fst (observe W v False))"
proof -
  have "frame W (run_tasks (observer_loop W a) (new_observer W a))"
    if "a < length (objs W)" "ob (objs W ! a) = None" for a
    using frame_trans [OF frame_new_observer [OF that] frame_run_tasks] .
  then show ?thesis
    by (auto simp: observe_def Let_def split: jsval.splits option.splits)
qed

lemma frame_observeArray: "frame W (observeArray W xs)"
  by (simp add: observeArray_def frame_run_tasks)

lemma strict_eq_self: "strict_eq v v \<longleftrightarrow> v \<noteq> Num NaN"
proof (cases v)
  case (Num x)
  then show ?thesis by (cases x) auto
qed auto

lemma apply_original_ob:
  assumes "a < length (objs W)"
  shows "ob (objs (snd (apply_original orig m a args W)) ! a) = ob (objs W ! a)"
proof -
  obtain es r where o: "orig m (elems (objs W ! a)) args = (es, r)" by force
  show ?thesis
    using assms
    by (cases r) (simp_all add: apply_original_def o set_obj_def Let_def nth_append)
qed















text \<open>
  C2 (amended). A flush sorts the queue by ascending id. At every moment of the drain
  the watchers run so far are exactly the leading queue entries, in queue order, and
  the entries not yet run are in strictly ascending id order. A watcher that
  \<^verbatim>\<open>queueWatcher\<close> accepts while the flush drains is spliced in strictly after the
  current position, behind every later entry with a smaller or equal id and before
  those with a larger id, so it can only run later in the same flush. If nothing is
  enqueued during the flush, the watchers run in strictly ascending id order; a watcher
  enqueued during the flush may have an id below that of the watcher run before it.
\<close>

theorem C2_flush_order:
  assumes "queue_consistent s"
    and "drain cfg beforew runw n (u, flush_start s) = (st, u', s')"
    and "flushing t" and "index t < length (queue t)" and "\<not> has t w"
  shows "runs s' = runs s @ take (stop_pos st s') (queue s') \<and>
         sorted_wrt (<) (drop (stop_pos st s') (queue s')) \<and>
         ((\<forall>u w. snd (beforew u w) = [] \<and> snd (runw u w) = []) \<and> length (queue s) \<le> n \<longrightarrow>
            st = Finished \<and> runs s' = runs s @ sort (queue s)) \<and>
         queue (fst (queueWatcher cfg w t)) =
           take (splice_pos t w) (queue t) @ w # drop (splice_pos t w) (queue t) \<and>
         index t < splice_pos t w \<and> splice_pos t w \<le> length (queue t) \<and>
         (\<forall>x \<in> set (drop (splice_pos t w) (queue t)). w < x) \<and>
         (index t + 1 < splice_pos t w \<longrightarrow> queue t ! (splice_pos t w - 1) \<le> w)"
proof -
  note o = drain_order [OF flush_start_inv [OF assms(1)] assms(2)]
  have i0: "index (flush_start s) = 0" "runs (flush_start s) = runs s"
    "queue (flush_start s) = sort (queue s)"
    by (simp_all add: flush_start_def)
  have 1: "runs s' = runs s @ take (stop_pos st s') (queue s')"
    and 2: "sorted_wrt (<) (drop (stop_pos st s') (queue s'))"
    and fin: "st = Finished \<longrightarrow> index s' = length (queue s')"
    using o unfolding i0 by simp_all
  have 3: "st = Finished \<and> runs s' = runs s @ sort (queue s)"
    if q: "\<forall>u w. snd (beforew u w) = [] \<and> snd (runw u w) = []" and n: "length (queue s) \<le> n"
  proof -
    note dq = drain_quiet [OF q assms(2)]
    have f: "st = Finished" and qq: "queue s' = sort (queue s)"
      using dq n unfolding i0 by simp_all
    have "stop_pos st s' = length (queue s')" using f fin by (simp add: stop_pos_def)
    then show ?thesis using f 1 qq by simp
  qed
  have 4: "queue (fst (queueWatcher cfg w t)) =
           take (splice_pos t w) (queue t) @ w # drop (splice_pos t w) (queue t)"
    using queueWatcher_flushing [OF assms(3,5), of cfg] by simp
  note b = splice_pos_bounds [OF assms(4), of w]
  have 5: "\<forall>x \<in> set (drop (splice_pos t w) (queue t)). w < x"
    using splice_pos_above [OF assms(4)] by blast
  have 6: "index t + 1 < splice_pos t w \<longrightarrow> queue t ! (splice_pos t w - 1) \<le> w"
    using splice_pos_below [OF assms(4)] by blast
  show ?thesis using 1 2 3 4 b 5 6 by blast
qed

lemma requeue4_run:
  "drain dev_async quiet requeue4 10 (False, flush_start (queued [5, 4])) =
     (Finished, True,
      \<lparr>queue = [4, 5, 4], has = (\<lambda>x. x \<in> set [5, 4])(4 := False, 5 := False, 4 := False),
       circular = (\<lambda>_. 0), waiting = True, flushing = True, index = 3, runs = [4, 5, 4],
       warned = []\<rparr>)"
  by (simp add: eval_nat_numeral flush_start_def queued_def flush_body_def enqueue_all_def
      queueWatcher_def requeue4_def quiet_def dev_async_def Let_def scan_back.simps)


lemma splice_pos_mid_flush: "splice_pos mid_flush 4 = 3"
  by (simp add: splice_pos_def mid_flush_def scan_back.simps)

theorem C2_flush_order_witness:
  "queue_consistent (queued [5, 4]) \<and> flushing mid_flush \<and>
   index mid_flush < length (queue mid_flush) \<and> \<not> has mid_flush 4 \<and>
   (\<forall>u w. snd (quiet (u::unit) w) = [] \<and> snd (quiet (u::unit) w) = []) \<and>
   length (queue (queued [5, 4])) \<le> 10 \<and> index mid_flush + 1 < splice_pos mid_flush 4 \<and>
   fst (drain dev_async quiet quiet 10 ((), flush_start (queued [5, 4]))) = Finished \<and>
   runs (snd (snd (drain dev_async quiet quiet 10 ((), flush_start (queued [5, 4]))))) = [4, 5] \<and>
   queue (fst (queueWatcher dev_async 4 mid_flush)) = [1, 2, 3, 4, 6]"
proof -
  let ?D = "drain dev_async quiet quiet 10 ((), flush_start (queued [5, 4]))"
  have h1: "queue_consistent (queued [5, 4])"
    by (simp add: queue_consistent_def queued_def)
  have h2: "?D = (fst ?D, fst (snd ?D), snd (snd ?D))" by (simp add: prod_eq_iff)
  have h3: "flushing mid_flush" and h4: "index mid_flush < length (queue mid_flush)"
    and h5: "\<not> has mid_flush 4"
    by (simp_all add: mid_flush_def)
  have q: "\<forall>u w. snd (quiet (u::unit) w) = [] \<and> snd (quiet (u::unit) w) = []"
    by (simp add: quiet_def)
  have l: "length (queue (queued [5, 4])) \<le> 10" "runs (queued [5, 4]) = []"
    "sort (queue (queued [5, 4])) = [4, 5]" "queue mid_flush = [1, 2, 3, 6]"
    by (simp_all add: queued_def mid_flush_def)
  have i: "index mid_flush = 0" by (simp add: mid_flush_def)
  note c = C2_flush_order [OF h1 h2 h3 h4 h5]
  from c have "(\<forall>u w. snd (quiet (u::unit) w) = [] \<and> snd (quiet (u::unit) w) = []) \<and>
      length (queue (queued [5, 4])) \<le> 10 \<longrightarrow>
      fst ?D = Finished \<and>
      runs (snd (snd ?D)) = runs (queued [5, 4]) @ sort (queue (queued [5, 4]))"
    by blast
  then have c3: "fst ?D = Finished \<and> runs (snd (snd ?D)) = [4, 5]"
    using q l by simp
  from c have "queue (fst (queueWatcher dev_async 4 mid_flush)) =
      take (splice_pos mid_flush 4) (queue mid_flush) @
      4 # drop (splice_pos mid_flush 4) (queue mid_flush)"
    by blast
  then have c4: "queue (fst (queueWatcher dev_async 4 mid_flush)) = [1, 2, 3, 4, 6]"
    using l by (simp add: splice_pos_mid_flush)
  show ?thesis
    using h1 h3 h4 h5 q l c3 c4 i by (simp add: splice_pos_mid_flush)
qed

theorem C2_ascending_run_order_counterexample:
  "queue_consistent (queued [5, 4]) \<and>
   runs (snd (snd (drain dev_async quiet requeue4 10 (False, flush_start (queued [5, 4]))))) =
     [4, 5, 4] \<and>
   \<not> sorted_wrt (<)
       (runs (snd (snd (drain dev_async quiet requeue4 10 (False, flush_start (queued [5, 4]))))))"
proof -
  have "queue_consistent (queued [5, 4])"
    by (simp add: queue_consistent_def queued_def)
  then show ?thesis by (simp add: requeue4_run)
qed



text \<open>
  C4. A reactive property holds the value its original getter returns or, without one,
  the closed-over \<^verbatim>\<open>val\<close>. Assigning a value strictly equal to it, or \<open>NaN\<close> when it
  is \<open>NaN\<close>, changes nothing and calls no \<^verbatim>\<open>notify\<close>. Assigning any other value to
  a writable property (one that has a setter or no getter) stores it, by a call of the
  original setter or in \<^verbatim>\<open>val\<close>, and calls \<^verbatim>\<open>notify\<close> on the property's dep
  exactly once; on a property with a getter and no setter it stores nothing and calls no
  \<^verbatim>\<open>notify\<close>.
\<close>

theorem C4_setter_notifies_on_change:
  "(strict_eq newVal (current_value W c) \<or> newVal = Num NaN \<and> current_value W c = Num NaN \<longrightarrow>
      reactiveSetter cfg W c newVal = (W, c)) \<and>
   (\<not> (strict_eq newVal (current_value W c) \<or> newVal = Num NaN \<and> current_value W c = Num NaN) \<and>
    (c_getter c = None \<or> c_setter c \<noteq> None) \<longrightarrow>
      notified (fst (reactiveSetter cfg W c newVal)) = notified W @ [c_dep c] \<and>
      (case c_setter c of
         None \<Rightarrow> c_val (snd (reactiveSetter cfg W c newVal)) = newVal \<and>
                 setter_calls (fst (reactiveSetter cfg W c newVal)) = setter_calls W
       | Some f \<Rightarrow> setter_calls (fst (reactiveSetter cfg W c newVal)) =
                    setter_calls W @ [(f, newVal)])) \<and>
   (\<not> (strict_eq newVal (current_value W c) \<or> newVal = Num NaN \<and> current_value W c = Num NaN) \<and>
    c_getter c \<noteq> None \<and> c_setter c = None \<longrightarrow>
      notified (fst (reactiveSetter cfg W c newVal)) = notified W \<and>
      snd (reactiveSetter cfg W c newVal) = c \<and>
      setter_calls (fst (reactiveSetter cfg W c newVal)) = setter_calls W)"
proof -
  let ?v = "current_value W c"
  let ?same = "strict_eq newVal ?v \<or> newVal = Num NaN \<and> ?v = Num NaN"
  have t: "(strict_eq newVal ?v \<or> (\<not> strict_eq newVal newVal \<and> \<not> strict_eq ?v ?v)) = ?same"
    by (simp add: strict_eq_self)
  have 1: "reactiveSetter cfg W c newVal = (W, c)" if ?same
    using that t by (simp add: reactiveSetter_def current_value_def Let_def)
  have 3: "notified (fst (reactiveSetter cfg W c newVal)) = notified W \<and>
      snd (reactiveSetter cfg W c newVal) = c \<and>
      setter_calls (fst (reactiveSetter cfg W c newVal)) = setter_calls W"
    if "\<not> ?same" "c_getter c \<noteq> None \<and> c_setter c = None"
    using that t by (auto simp: reactiveSetter_def current_value_def Let_def)
  have 2: "notified (fst (reactiveSetter cfg W c newVal)) = notified W @ [c_dep c] \<and>
      (case c_setter c of
         None \<Rightarrow> c_val (snd (reactiveSetter cfg W c newVal)) = newVal \<and>
                 setter_calls (fst (reactiveSetter cfg W c newVal)) = setter_calls W
       | Some f \<Rightarrow> setter_calls (fst (reactiveSetter cfg W c newVal)) =
                    setter_calls W @ [(f, newVal)])"
    if ns: "\<not> ?same" and wr: "c_getter c = None \<or> c_setter c \<noteq> None"
  proof -
    let ?W1 = "(if dev cfg \<and> c_custom c then W\<lparr>custom_calls := custom_calls W + 1\<rparr> else W)"
    let ?W2 = "(case c_setter c of
                  Some f \<Rightarrow> ?W1\<lparr>setter_calls := setter_calls ?W1 @ [(f, newVal)]\<rparr>
                | None \<Rightarrow> ?W1)"
    let ?c2 = "(case c_setter c of Some f \<Rightarrow> c | None \<Rightarrow> c\<lparr>c_val := newVal\<rparr>)"
    let ?W3 = "(if c_shallow c then ?W2 else fst (observe ?W2 newVal False))"
    let ?b = "(if c_shallow c then None else snd (observe ?W2 newVal False))"
    have r: "reactiveSetter cfg W c newVal =
             (?W3\<lparr>notified := notified ?W3 @ [c_dep c]\<rparr>, ?c2\<lparr>c_childOb := ?b\<rparr>)"
      using ns wr t
      by (cases "c_setter c")
         (auto simp: reactiveSetter_def current_value_def Let_def split: prod.splits)
    have f: "frame ?W2 ?W3" using frame_observe_False [of ?W2 newVal] by simp
    have n: "notified ?W3 = notified W" "setter_calls ?W3 = setter_calls ?W2"
      using f by (auto simp: frame_def split: option.splits)
    show ?thesis unfolding r using n by (auto split: option.splits)
  qed
  show ?thesis using 1 2 3 by blast
qed

theorem C4_setter_notifies_on_change_witness:
  "current_value empty_world (plain_cell 7 (Num NaN)) = Num NaN \<and>
   reactiveSetter dev_async empty_world (plain_cell 7 (Num NaN)) (Num NaN) =
     (empty_world, plain_cell 7 (Num NaN)) \<and>
   strict_eq (Num (Fin 3)) (current_value empty_world (plain_cell 7 (Num (Fin 3)))) \<and>
   reactiveSetter dev_async empty_world (plain_cell 7 (Num (Fin 3))) (Num (Fin 3)) =
     (empty_world, plain_cell 7 (Num (Fin 3))) \<and>
   \<not> strict_eq (Num (Fin 5)) (current_value empty_world (plain_cell 7 (Num (Fin 3)))) \<and>
   c_getter (plain_cell 7 (Num (Fin 3))) = None \<and>
   notified (fst (reactiveSetter dev_async empty_world (plain_cell 7 (Num (Fin 3))) (Num (Fin 5)))) =
     [7] \<and>
   c_val (snd (reactiveSetter dev_async empty_world (plain_cell 7 (Num (Fin 3))) (Num (Fin 5)))) =
     Num (Fin 5) \<and>
   c_getter ((plain_cell 7 Null)\<lparr>c_getter := Some (UserFn 0)\<rparr>) \<noteq> None \<and>
   c_setter ((plain_cell 7 Null)\<lparr>c_getter := Some (UserFn 0)\<rparr>) = None \<and>
   notified (fst (reactiveSetter dev_async empty_world
      ((plain_cell 7 Null)\<lparr>c_getter := Some (UserFn 0)\<rparr>) (Num (Fin 5)))) = []"
proof -
  have a: "current_value empty_world (plain_cell 7 v) = v" for v
    by (simp add: current_value_def plain_cell_def)
  have b: "current_value empty_world ((plain_cell 7 Null)\<lparr>c_getter := Some (UserFn 0)\<rparr>) = Undefined"
    by (simp add: current_value_def plain_cell_def empty_world_def)
  have p: "c_getter (plain_cell 7 v) = None" "c_setter (plain_cell 7 v) = None"
    "c_dep (plain_cell 7 v) = 7"
    "c_getter ((plain_cell 7 Null)\<lparr>c_getter := Some (UserFn 0)\<rparr>) \<noteq> None"
    "c_setter ((plain_cell 7 Null)\<lparr>c_getter := Some (UserFn 0)\<rparr>) = None" for v
    by (simp_all add: plain_cell_def)
  have e: "notified empty_world = []" by (simp add: empty_world_def)
  note t1 = C4_setter_notifies_on_change
    [of "Num NaN" empty_world "plain_cell 7 (Num NaN)" dev_async]
  note t2 = C4_setter_notifies_on_change
    [of "Num (Fin 3)" empty_world "plain_cell 7 (Num (Fin 3))" dev_async]
  note t3 = C4_setter_notifies_on_change
    [of "Num (Fin 5)" empty_world "plain_cell 7 (Num (Fin 3))" dev_async]
  note t4 = C4_setter_notifies_on_change
    [of "Num (Fin 5)" empty_world "(plain_cell 7 Null)\<lparr>c_getter := Some (UserFn 0)\<rparr>" dev_async]
  have 1: "reactiveSetter dev_async empty_world (plain_cell 7 (Num NaN)) (Num NaN) =
     (empty_world, plain_cell 7 (Num NaN))"
    using t1 by (simp add: a)
  have 2: "reactiveSetter dev_async empty_world (plain_cell 7 (Num (Fin 3))) (Num (Fin 3)) =
     (empty_world, plain_cell 7 (Num (Fin 3)))"
    using t2 by (simp add: a)
  have 3: "notified (fst (reactiveSetter dev_async empty_world (plain_cell 7 (Num (Fin 3)))
      (Num (Fin 5)))) = [7] \<and>
   c_val (snd (reactiveSetter dev_async empty_world (plain_cell 7 (Num (Fin 3))) (Num (Fin 5)))) =
     Num (Fin 5)"
    using t3 by (simp add: a p e)
  have 4: "notified (fst (reactiveSetter dev_async empty_world
      ((plain_cell 7 Null)\<lparr>c_getter := Some (UserFn 0)\<rparr>) (Num (Fin 5)))) = []"
    using t4 p(4,5) by (simp add: b e)
  show ?thesis using 1 2 3 4 by (simp add: a p)
qed


text \<open>
  C5 (amended). In a development build a flush counts, for each watcher, the runs after
  which the watcher was found enqueued again (\<^verbatim>\<open>circular[id]\<close>). The count is at most
  the number of runs of that watcher in the flush and never exceeds
  \<^verbatim>\<open>MAX_UPDATE_COUNT + 1\<close>; the flush names the watcher just run in a warning and
  leaves the drain loop exactly when that watcher's count reaches
  \<^verbatim>\<open>MAX_UPDATE_COUNT + 1\<close>, and warns in no other case. So a watcher that enqueues
  itself again in each of its runs is run at most \<^verbatim>\<open>MAX_UPDATE_COUNT + 1\<close> = 101
  times in one flush.
\<close>

theorem C5_update_budget:
  assumes "dev cfg" and "\<forall>i. circular s i = 0"
    and "drain cfg beforew runw n (u, flush_start s) = (st, u', s')"
  shows "(\<forall>i. circular s' i \<le> MAX_UPDATE_COUNT + 1) \<and>
         (\<forall>i. circular s' i + count_list (runs s) i \<le> count_list (runs s') i) \<and>
         (\<forall>i. (\<forall>v. i \<in> set (snd (runw v i))) \<longrightarrow>
              count_list (runs s') i = count_list (runs s) i + circular s' i \<and>
              count_list (runs s') i \<le> count_list (runs s) i + MAX_UPDATE_COUNT + 1) \<and>
         (if st = Aborted
          then runs s' \<noteq> [] \<and> circular s' (last (runs s')) = MAX_UPDATE_COUNT + 1 \<and>
               warned s' = warned s @ [last (runs s')]
          else (\<forall>i. circular s' i \<le> MAX_UPDATE_COUNT) \<and> warned s' = warned s)"
proof -
  have c0: "\<forall>i. circular (flush_start s) i \<le> MAX_UPDATE_COUNT"
    using assms(2) by (simp add: flush_start_def)
  note d = drain_circular [OF assms(1) c0 assms(3)]
  have f: "circular (flush_start s) = (\<lambda>_. 0)" "runs (flush_start s) = runs s"
    "warned (flush_start s) = warned s"
    using assms(2) by (auto simp: flush_start_def)
  have 1: "circular s' i \<le> MAX_UPDATE_COUNT + 1" for i
  proof (cases "st = Aborted")
    case True
    then show ?thesis using d by (cases "i = last (runs s')") auto
  next
    case False
    then show ?thesis using d by (simp add: le_SucI)
  qed
  have 2: "circular s' i + count_list (runs s) i \<le> count_list (runs s') i" for i
    using d unfolding f by simp
  have 3: "count_list (runs s') i = count_list (runs s) i + circular s' i \<and>
           count_list (runs s') i \<le> count_list (runs s) i + MAX_UPDATE_COUNT + 1"
    if "\<forall>v. i \<in> set (snd (runw v i))" for i
  proof -
    have "circular s' i + count_list (runs s) i = count_list (runs s') i"
      using d that unfolding f by simp
    then show ?thesis using 1 [of i] by simp
  qed
  have 4: "if st = Aborted
          then runs s' \<noteq> [] \<and> circular s' (last (runs s')) = MAX_UPDATE_COUNT + 1 \<and>
               warned s' = warned s @ [last (runs s')]
          else (\<forall>i. circular s' i \<le> MAX_UPDATE_COUNT) \<and> warned s' = warned s"
    using d unfolding f by simp
  show ?thesis using 1 2 3 4 by blast
qed

theorem C5_update_budget_witness:
  "dev dev_async \<and> (\<forall>i. circular (queued [1]) i = 0) \<and>
   (\<forall>v. 1 \<in> set (snd (requeue_self v 1))) \<and>
   fst (drain dev_async quiet requeue_self 200 ((), flush_start (queued [1]))) = Aborted \<and>
   count_list (runs (snd (snd (drain dev_async quiet requeue_self 200
      ((), flush_start (queued [1])))))) 1 = MAX_UPDATE_COUNT + 1 \<and>
   warned (snd (snd (drain dev_async quiet requeue_self 200
      ((), flush_start (queued [1]))))) = [1] \<and>
   fst (drain dev_async quiet quiet 10 ((), flush_start (queued [1]))) \<noteq> Aborted \<and>
   warned (snd (snd (drain dev_async quiet quiet 10 ((), flush_start (queued [1]))))) = []"
proof -
  let ?A = "drain dev_async quiet requeue_self 200 ((), flush_start (queued [1]))"
  let ?B = "drain dev_async quiet quiet 10 ((), flush_start (queued [1]))"
  have h1: "dev dev_async" by (simp add: dev_async_def)
  have h2: "\<forall>i. circular (queued [1]) i = 0" by (simp add: queued_def)
  have hA: "?A = (fst ?A, fst (snd ?A), snd (snd ?A))"
    and hB: "?B = (fst ?B, fst (snd ?B), snd (snd ?B))"
    by (simp_all add: prod_eq_iff)
  have self: "\<forall>v. 1 \<in> set (snd (requeue_self v 1))" by (simp add: requeue_self_def)
  have q0: "runs (queued [1]) = []" "warned (queued [1]) = []" by (simp_all add: queued_def)
  obtain sA where a: "?A = (Aborted, (), sA)" "runs sA = replicate 101 1" "warned sA = [1]"
    using self_loop_run by blast
  have fA: "fst ?A = Aborted" using a by simp
  note cA = C5_update_budget [OF h1 h2 hA]
  from cA have "if fst ?A = Aborted
      then runs (snd (snd ?A)) \<noteq> [] \<and>
           circular (snd (snd ?A)) (last (runs (snd (snd ?A)))) = MAX_UPDATE_COUNT + 1 \<and>
           warned (snd (snd ?A)) = warned (queued [1]) @ [last (runs (snd (snd ?A)))]
      else (\<forall>i. circular (snd (snd ?A)) i \<le> MAX_UPDATE_COUNT) \<and>
           warned (snd (snd ?A)) = warned (queued [1])"
    by blast
  then have wA: "warned (snd (snd ?A)) = [1]"
    and cl: "circular (snd (snd ?A)) 1 = MAX_UPDATE_COUNT + 1"
    using fA a q0 by simp_all
  from cA have "(\<forall>v. 1 \<in> set (snd (requeue_self v 1))) \<longrightarrow>
      count_list (runs (snd (snd ?A))) 1 =
        count_list (runs (queued [1])) 1 + circular (snd (snd ?A)) 1"
    by blast
  then have nA: "count_list (runs (snd (snd ?A))) 1 = MAX_UPDATE_COUNT + 1"
    using self cl q0 by simp
  have qq: "\<forall>u w. snd (quiet (u::unit) w) = [] \<and> snd (quiet (u::unit) w) = []"
    by (simp add: quiet_def)
  have fB: "fst ?B \<noteq> Aborted" using drain_quiet [OF qq hB] by simp
  note cB = C5_update_budget [OF h1 h2 hB]
  from cB have "if fst ?B = Aborted
      then runs (snd (snd ?B)) \<noteq> [] \<and>
           circular (snd (snd ?B)) (last (runs (snd (snd ?B)))) = MAX_UPDATE_COUNT + 1 \<and>
           warned (snd (snd ?B)) = warned (queued [1]) @ [last (runs (snd (snd ?B)))]
      else (\<forall>i. circular (snd (snd ?B)) i \<le> MAX_UPDATE_COUNT) \<and>
           warned (snd (snd ?B)) = warned (queued [1])"
    by blast
  then have wB: "warned (snd (snd ?B)) = []" using fB q0 by simp
  show ?thesis using h1 h2 self fA nA wA fB wB by blast
qed

theorem C5_more_than_max_runs_counterexample:
  "fst (drain dev_async quiet requeue_self 200 ((), flush_start (queued [1]))) = Aborted \<and>
   MAX_UPDATE_COUNT < count_list (runs (snd (snd (drain dev_async quiet requeue_self 200
      ((), flush_start (queued [1])))))) 1 \<and>
   fst (drain dev_async quiet ping_pong 210 ((), flush_start (queued [1]))) = Running \<and>
   MAX_UPDATE_COUNT < count_list (runs (snd (snd (drain dev_async quiet ping_pong 210
      ((), flush_start (queued [1])))))) 1 \<and>
   warned (snd (snd (drain dev_async quiet ping_pong 210 ((), flush_start (queued [1]))))) = []"
proof -
  obtain sA where a: "drain dev_async quiet requeue_self 200 ((), flush_start (queued [1])) =
      (Aborted, (), sA)" "runs sA = replicate 101 1"
    using self_loop_run by blast
  obtain sB where b: "drain dev_async quiet ping_pong 210 ((), flush_start (queued [1])) =
      (Running, (), sB)" "count_list (runs sB) 1 = 105" "warned sB = []"
    using ping_pong_run by blast
  have "count_list (runs sA) 1 = 101" unfolding a(2) by (rule count_list_replicate)
  then show ?thesis using a b by (simp add: MAX_UPDATE_COUNT_def)
qed

text \<open>
  C6. For a value that carries an Observer (an object of the store, not a VNode, whose
  \<^verbatim>\<open>__ob__\<close> holds one), \<^verbatim>\<open>observe\<close> returns that Observer, creates no Observer
  and no \<^verbatim>\<open>Dep\<close> and leaves every object as it is; the only change is the
  \<^verbatim>\<open>vmCount++\<close> of a call with \<^verbatim>\<open>asRootData\<close>. The value carries the same
  Observer afterwards, so the same holds for every later call.
\<close>

theorem C6_observe_idempotent:
  assumes "a < length (objs W)" and "kind (objs W ! a) \<noteq> VNodeObject"
    and "ob (objs W ! a) = Some b"
  shows "snd (observe W (Obj a) r) = Some b \<and>
         objs (fst (observe W (Obj a) r)) = objs W \<and>
         length (observers (fst (observe W (Obj a) r))) = length (observers W) \<and>
         dep_uid (fst (observe W (Obj a) r)) = dep_uid W \<and>
         notified (fst (observe W (Obj a) r)) = notified W \<and>
         (\<not> r \<longrightarrow> fst (observe W (Obj a) r) = W) \<and>
         (r \<longrightarrow> fst (observe W (Obj a) r) =
                  W\<lparr>observers := (observers W)
                      [b := (observers W ! b)\<lparr>vmCount := vmCount (observers W ! b) + 1\<rparr>]\<rparr>) \<and>
         snd (observe (fst (observe W (Obj a) r)) (Obj a) r') = Some b \<and>
         objs (fst (observe (fst (observe W (Obj a) r)) (Obj a) r')) = objs W"
  using assms by (simp add: observe_def)

theorem C6_observe_idempotent_witness:
  "0 < length (objs record_world) \<and> kind (objs record_world ! 0) \<noteq> VNodeObject \<and>
   ob (objs record_world ! 0) = Some 0 \<and>
   observe record_world (Obj 0) False = (record_world, Some 0) \<and>
   snd (observe record_world (Obj 0) True) = Some 0 \<and>
   fst (observe record_world (Obj 0) True) = root_world \<and>
   snd (observe (fst (observe record_world (Obj 0) True)) (Obj 0) False) = Some 0"
proof -
  have h: "0 < length (objs record_world)" "kind (objs record_world ! 0) \<noteq> VNodeObject"
    "ob (objs record_world ! 0) = Some 0"
    by (simp_all add: record_world_def empty_world_def)
  note t = C6_observe_idempotent [OF h]
  have 1: "observe record_world (Obj 0) False = (record_world, Some 0)"
    using t [of False False] by (simp add: prod_eq_iff)
  have 2: "snd (observe record_world (Obj 0) True) = Some 0"
    "snd (observe (fst (observe record_world (Obj 0) True)) (Obj 0) False) = Some 0"
    using t [of True False] by blast+
  have "fst (observe record_world (Obj 0) True) =
        record_world\<lparr>observers := (observers record_world)
          [0 := (observers record_world ! 0)\<lparr>vmCount := vmCount (observers record_world ! 0) + 1\<rparr>]\<rparr>"
    using t [of True False] by blast
  then have 3: "fst (observe record_world (Obj 0) True) = root_world"
    by (simp add: root_world_def record_world_def empty_world_def)
  show ?thesis using h 1 2 3 by simp
qed






text \<open>
  C9. On an observed array, each of the seven intercepting methods returns exactly what
  the original method returns for the same arguments, and leaves every array of the
  store, this one included, with exactly the elements the original method alone leaves;
  it adds one call of \<^verbatim>\<open>notify\<close> on the array's structural dep.
\<close>

theorem C9_mutator_refines_original:
  assumes "a < length (objs W)" and "ob (objs W ! a) = Some b"
  shows "\<exists>W'. mutator orig m a args W = Inr (fst (apply_original orig m a args W), W') \<and>
           length (objs W') = length (objs (snd (apply_original orig m a args W))) \<and>
           (\<forall>x < length (objs W').
              elems (objs W' ! x) = elems (objs (snd (apply_original orig m a args W)) ! x) \<and>
              kind (objs W' ! x) = kind (objs (snd (apply_original orig m a args W)) ! x)) \<and>
           notified W' = notified W @ [o_dep (observers W' ! b)] \<and>
           take (length (observers W)) (observers W') = observers W"
proof -
  obtain result W1 where ao: "apply_original orig m a args W = (result, W1)" by force
  have b1: "ob (objs W1 ! a) = Some b"
    using apply_original_ob [OF assms(1), of orig m args] assms(2) ao by simp
  have n1: "notified W1 = notified W \<and> observers W1 = observers W"
  proof -
    obtain es r where o: "orig m (elems (objs W ! a)) args = (es, r)" by force
    show ?thesis using ao by (cases r) (auto simp: apply_original_def o set_obj_def Let_def)
  qed
  let ?W2 = "(case inserted m args of Some xs \<Rightarrow> observeArray W1 xs | None \<Rightarrow> W1)"
  have f: "frame W1 ?W2" by (auto simp: frame_observeArray split: option.splits)
  have mu: "mutator orig m a args W =
            Inr (result, ?W2\<lparr>notified := notified ?W2 @ [o_dep (observers ?W2 ! b)]\<rparr>)"
    by (simp add: mutator_def ao b1 Let_def)
  show ?thesis
    unfolding mu ao using f n1 by (simp add: frame_def)
qed

theorem C9_mutator_refines_original_witness:
  "0 < length (objs array_world) \<and> ob (objs array_world ! 0) = Some 0 \<and>
   fst (apply_original push_original Push 0 [Str ''x''] array_world) = Num (Fin 2) \<and>
   elems (objs (snd (apply_original push_original Push 0 [Str ''x''] array_world)) ! 0) =
     [Num (Fin 1), Str ''x''] \<and>
   (\<exists>W'. mutator push_original Push 0 [Str ''x''] array_world = Inr (Num (Fin 2), W') \<and>
          elems (objs W' ! 0) = [Num (Fin 1), Str ''x''] \<and> notified W' = [0])"
proof -
  let ?A = "apply_original push_original Push 0 [Str ''x''] array_world"
  have h: "0 < length (objs array_world)" "ob (objs array_world ! 0) = Some 0"
    by (simp_all add: array_world_def empty_world_def)
  have a: "?A = (Num (Fin 2),
      array_world\<lparr>objs := [(objs array_world ! 0)\<lparr>elems := [Num (Fin 1), Str ''x'']\<rparr>]\<rparr>)"
    by (simp add: apply_original_def push_original_def set_obj_def array_world_def empty_world_def)
  have a1: "fst ?A = Num (Fin 2)" "length (objs (snd ?A)) = 1"
    "elems (objs (snd ?A) ! 0) = [Num (Fin 1), Str ''x'']"
    unfolding a by simp_all
  have o: "observers array_world = [\<lparr>o_value = 0, o_dep = 0, vmCount = 0\<rparr>]"
    "notified array_world = []"
    by (simp_all add: array_world_def empty_world_def)
  obtain W' where w: "mutator push_original Push 0 [Str ''x''] array_world = Inr (fst ?A, W')"
    "length (objs W') = length (objs (snd ?A))"
    "\<forall>x < length (objs W').
        elems (objs W' ! x) = elems (objs (snd ?A) ! x) \<and>
        kind (objs W' ! x) = kind (objs (snd ?A) ! x)"
    "notified W' = notified array_world @ [o_dep (observers W' ! 0)]"
    "take (length (observers array_world)) (observers W') = observers array_world"
    using C9_mutator_refines_original [OF h, of push_original Push "[Str ''x'']"] by blast
  have e: "elems (objs W' ! 0) = [Num (Fin 1), Str ''x'']"
    using w(2,3) a1 by simp
  have "take 1 (observers W') ! 0 = \<lparr>o_value = 0, o_dep = 0, vmCount = 0\<rparr>"
    using w(5) o by simp
  then have "observers W' ! 0 = \<lparr>o_value = 0, o_dep = 0, vmCount = 0\<rparr>" by simp
  then have n: "notified W' = [0]" using w(4) o by simp
  show ?thesis using h a1 w(1) e n by simp
qed

text \<open>
  C10. For a target that is not an array and does not own the key, \<^verbatim>\<open>del\<close> returns
  with every object, every Observer and every trace but the warning count as they were:
  no key is removed, no field changes, and \<^verbatim>\<open>notify\<close> is not called. On
  \<^verbatim>\<open>undefined\<close> and \<^verbatim>\<open>null\<close> it throws before it has changed anything.
  Function values are not objects of the store and are left out as targets.
\<close>

theorem C10_del_missing_key_is_noop:
  assumes "\<not> isArray W tgt" and "\<not> target_has_own W tgt key" and "\<forall>f. tgt \<noteq> Func f"
  shows "(tgt = Undefined \<or> tgt = Null \<longrightarrow> del cfg orig W tgt key = Inl TypeError) \<and>
         (tgt \<noteq> Undefined \<and> tgt \<noteq> Null \<longrightarrow>
            (\<exists>n. del cfg orig W tgt key = Inr (W\<lparr>warnings := n\<rparr>)))"
proof (cases tgt)
  case (Obj a)
  have w: "\<exists>n. warn cfg W = W\<lparr>warnings := n\<rparr>" "\<exists>n. W = W\<lparr>warnings := n\<rparr>"
    by (auto simp: warn_def intro: exI [of _ "warnings W"])
  show ?thesis
    using assms w unfolding Obj
    by (auto simp: del_def Let_def isArray_def target_has_own_def)
next
  case (Str s)
  have w: "\<exists>n. warn cfg W = W\<lparr>warnings := n\<rparr>"
    by (auto simp: warn_def intro: exI [of _ "warnings W"])
  show ?thesis using assms w unfolding Str by (simp add: del_def target_has_own_def)
next
  case (Func f)
  then show ?thesis using assms by simp
qed (auto simp: del_def warn_def intro: exI [of _ "warnings W"])

theorem C10_del_missing_key_is_noop_witness:
  "\<not> isArray record_world (Obj 0) \<and> \<not> target_has_own record_world (Obj 0) (PName ''k'') \<and>
   (\<forall>f. Obj 0 \<noteq> Func f) \<and>
   del dev_async push_original record_world (Obj 0) (PName ''k'') = Inr record_world \<and>
   del dev_async push_original record_world Undefined (PName ''k'') = Inl TypeError"
proof -
  have h: "\<not> isArray record_world (Obj 0)"
    "\<not> target_has_own record_world (Obj 0) (PName ''k'')" "\<forall>f. Obj 0 \<noteq> Func f"
    by (simp_all add: isArray_def target_has_own_def hasOwn_def lookup_def record_world_def
        empty_world_def)
  have u: "\<not> isArray record_world Undefined"
    "\<not> target_has_own record_world Undefined (PName ''k'')" "\<forall>f. Undefined \<noteq> Func f"
    by (simp_all add: isArray_def target_has_own_def)
  obtain n where n: "del dev_async push_original record_world (Obj 0) (PName ''k'') =
      Inr (record_world\<lparr>warnings := n\<rparr>)"
    using C10_del_missing_key_is_noop [OF h, of dev_async push_original] by auto
  have "del dev_async push_original record_world (Obj 0) (PName ''k'') = Inr record_world"
    by (simp add: del_def Let_def record_world_def empty_world_def hasOwn_def lookup_def)
  moreover have "del dev_async push_original record_world Undefined (PName ''k'') = Inl TypeError"
    using C10_del_missing_key_is_noop [OF u, of dev_async push_original] by simp
  ultimately show ?thesis using h by simp
qed

end
